theory Spec2Isabelle
  imports Main "HOL-Library.Word"
begin

unbundle bit_operations_syntax

section \<open>The field GF(2^8) of rs.go\<close>

text \<open>
  Field elements are Go's \<open>uint8\<close>; the carry-less multiplication works on \<open>uint16\<close>.
  Both are machine words, so shifts drop the bits that leave the word.
\<close>

type_synonym byte = "8 word"

text \<open>The characteristic polynomial \<open>x^8 + x^4 + x^3 + x^2 + 1\<close> as a constant of rs.go.\<close>

definition cp_84320 :: "16 word" where
  "cp_84320 = push_bit 8 1 OR push_bit 4 1 OR push_bit 3 1 OR push_bit 2 1 OR push_bit 0 1"

text \<open>
  \<open>galois_multiply\<close>, first loop: \<open>for ; a != 0; a >>= 1 { if a&1 != 0 { p ^= b }; b <<= 1 }\<close>.
  The loop ends because \<open>a\<close> shrinks with every shift.
\<close>

function gm_mul_loop :: "16 word \<Rightarrow> 16 word \<Rightarrow> 16 word \<Rightarrow> 16 word" where
  "gm_mul_loop a b p =
     (if a \<noteq> 0
      then gm_mul_loop (drop_bit 1 a) (push_bit 1 b) (if a AND 1 \<noteq> 0 then p XOR b else p)
      else p)"
  by pat_completeness auto
termination
proof (relation "measure (\<lambda>(a, b, p). unat a)")
  show "wf (measure (\<lambda>(a :: 16 word, b :: 16 word, p :: 16 word). unat a))"
    by simp
next
  fix a b p :: "16 word"
  assume "a \<noteq> 0"
  then have "unat a \<noteq> 0"
    by (simp add: unat_eq_0)
  then have "unat a div 2 < unat a"
    by simp
  then show "((drop_bit 1 a, push_bit 1 b, if a AND 1 \<noteq> 0 then p XOR b else p), a, b, p)
      \<in> measure (\<lambda>(a, b, p). unat a)"
    by (simp add: drop_bit_eq_div unat_div)
qed

text \<open>
  \<open>galois_multiply\<close>, second loop:
  \<open>for i := 1 << 15; i >= 1<<8; i >>= 1 { if p&uint16(i) != 0 { p ^= c }; c >>= 1 }\<close>,
  with \<open>i\<close> a Go \<open>int\<close>.
\<close>

function gm_reduce_loop :: "int \<Rightarrow> 16 word \<Rightarrow> 16 word \<Rightarrow> 16 word" where
  "gm_reduce_loop i p c =
     (if i \<ge> 2 ^ 8
      then gm_reduce_loop (drop_bit 1 i) (if p AND word_of_int i \<noteq> 0 then p XOR c else p)
             (drop_bit 1 c)
      else p)"
  by pat_completeness auto
termination
proof (relation "measure (\<lambda>(i, p, c). nat i)")
  show "wf (measure (\<lambda>(i :: int, p :: 16 word, c :: 16 word). nat i))"
    by simp
next
  fix i :: int and p c :: "16 word"
  assume "2 ^ 8 \<le> i"
  then have "nat (i div 2) < nat i"
    by simp
  then show "((drop_bit 1 i, if p AND word_of_int i \<noteq> 0 then p XOR c else p, drop_bit 1 c),
      i, p, c) \<in> measure (\<lambda>(i, p, c). nat i)"
    by (simp add: drop_bit_eq_div)
qed

text \<open>\<open>galois_multiply\<close>: multiply the hard way; rs.go uses it to seed the tables only.\<close>

definition galois_multiply :: "byte \<Rightarrow> byte \<Rightarrow> byte" where
  "galois_multiply aa bb =
     ucast (gm_reduce_loop (2 ^ 15) (gm_mul_loop (ucast aa) (ucast bb) 0)
              (push_bit 7 cp_84320))"

text \<open>
  The tables \<open>exp [255]uint8\<close>, \<open>log [256]uint8\<close> and \<open>inv [256]uint8\<close> are lists of
  these lengths, zero when \<open>init\<close> starts. One round of the first loop of \<open>init\<close>:
  \<open>exp[i] = a; log[a] = uint8(i); a = galois_multiply(a, 2)\<close>.
\<close>

definition init_step :: "nat \<Rightarrow> byte \<times> byte list \<times> byte list \<Rightarrow> byte \<times> byte list \<times> byte list" where
  "init_step i = (\<lambda>(a, e, l). (galois_multiply a 2, e[i := a], l[unat a := of_nat i]))"

text \<open>One round of the second loop: \<open>var idx int = 255 - int(log[i]); inv[i] = exp[idx]\<close>.\<close>

definition init_inv_step :: "byte list \<Rightarrow> byte list \<Rightarrow> nat \<Rightarrow> byte list \<Rightarrow> byte list" where
  "init_inv_step e l i v = v[i := e ! (255 - unat (l ! i))]"

text \<open>\<open>init\<close> returns the three tables \<open>(exp, log, inv)\<close>.\<close>

definition init :: "byte list \<times> byte list \<times> byte list" where
  "init =
     (case fold init_step [0..<255] (1, replicate 255 0, replicate 256 0) of
        (a, e, l) \<Rightarrow>
          (e, l, fold (init_inv_step e l) [2..<256] ((replicate 256 0)[0 := 0, 1 := 1])))"

definition exp_tab :: "byte list" where
  "exp_tab = fst init"

definition log_tab :: "byte list" where
  "log_tab = fst (snd init)"

definition inv_tab :: "byte list" where
  "inv_tab = snd (snd init)"

text \<open>
  \<open>mult\<close>: the table multiplication. \<open>idx\<close> is a Go \<open>int\<close>; the reduction modulo 255 is
  the conditional subtraction of the source.
\<close>

definition mult :: "byte \<Rightarrow> byte \<Rightarrow> byte" where
  "mult a b =
     (if a = 0 \<or> b = 0 then 0
      else (let idx = uint (log_tab ! unat a) + uint (log_tab ! unat b)
            in exp_tab ! nat (if idx \<ge> 255 then idx - 255 else idx)))"

text \<open>
  Reading \<open>exp[i]\<close> with the bounds check of the Go runtime: \<open>None\<close> is the panic at an
  index outside the array.
\<close>

definition exp_at :: "nat \<Rightarrow> byte option" where
  "exp_at i = (if i < length exp_tab then Some (exp_tab ! i) else None)"

section \<open>The erasure coder of rs.go\<close>

text \<open>\<open>type ErasureCoder struct { interp [][]uint8 }\<close>: the Lagrange interpolation factors.\<close>

record ErasureCoder =
  interp :: "byte list list"

text \<open>
  The panics of \<open>Code\<close> and \<open>Update\<close>, by kind: \<open>ShapeMismatch\<close> for "Wrong number of
  inputs" and "Wrong number of in/outputs", \<open>RaggedInput\<close> for "Ragged input matrix" and
  "Ragged or uneven input matrices", \<open>IndexOutOfRange\<close> for "Abscissa index out of range".
  \<open>RuntimeIndexError\<close> is the panic of the Go runtime at a slice index outside the slice.
\<close>

datatype fault = ShapeMismatch | RaggedInput | IndexOutOfRange | RuntimeIndexError

text \<open>\<open>makeMatrix\<close>: an \<open>x\<close> by \<open>y\<close> matrix of zero bytes.\<close>

definition makeMatrix :: "nat \<Rightarrow> nat \<Rightarrow> byte list list" where
  "makeMatrix x y = replicate x (replicate y 0)"

text \<open>
  \<open>lagrange\<close>: \<open>r = 1; for k, xk := range in_x { if k == i { continue };
  f := mult(xj^xk, inv[in_x[i]^xk]); r = mult(r, f) }\<close>. Its only caller passes an index
  \<open>i\<close> of \<open>in_x\<close>.
\<close>

definition lagrange :: "byte list \<Rightarrow> nat \<Rightarrow> byte \<Rightarrow> byte" where
  "lagrange in_x i xj =
     fold (\<lambda>(k, xk) r. if k = i then r
                         else mult r (mult (xj XOR xk) (inv_tab ! unat (in_x ! i XOR xk))))
       (enumerate 0 in_x) 1"

text \<open>
  \<open>NewErasureCoder\<close>: \<open>p.interp = makeMatrix(len(in_x), len(out_x))\<close>, then
  \<open>p.interp[i][j] = lagrange(in_x, i, out_x[j])\<close> for every \<open>i\<close> and \<open>j\<close>. It has no
  check and no panic of its own.
\<close>

definition NewErasureCoder :: "byte list \<Rightarrow> byte list \<Rightarrow> ErasureCoder" where
  "NewErasureCoder in_x out_x =
     \<lparr>interp =
        fold (\<lambda>i. fold (\<lambda>j m. m[i := (m ! i)[j := lagrange in_x i (out_x ! j)]])
                    [0..<length out_x])
          [0..<length in_x] (makeMatrix (length in_x) (length out_x))\<rparr>"

definition Degree :: "ErasureCoder \<Rightarrow> nat" where
  "Degree p = length (interp p)"

text \<open>\<open>NumOutputs\<close> reads \<open>len(p.interp[0])\<close>: the runtime panics when there is no row 0.\<close>

definition NumOutputs :: "ErasureCoder \<Rightarrow> fault + nat" where
  "NumOutputs p = (case interp p of [] \<Rightarrow> Inl RuntimeIndexError | r # rs \<Rightarrow> Inr (length r))"

text \<open>
  A counting loop whose body may panic: the loop stops at the first panic and hands it on.
\<close>

primrec for_each :: "nat list \<Rightarrow> (nat \<Rightarrow> 's \<Rightarrow> 'e + 's) \<Rightarrow> 's \<Rightarrow> 'e + 's" where
  "for_each [] body s = Inr s"
| "for_each (i # is) body s = (case body i s of Inl e \<Rightarrow> Inl e | Inr t \<Rightarrow> for_each is body t)"

text \<open>
  \<open>out[k][j] ^= v\<close>. A panic of the runtime leaves the rows as they are at that moment,
  so the fault comes with them.
\<close>

definition xor_into :: "byte list list \<Rightarrow> nat \<Rightarrow> nat \<Rightarrow> byte \<Rightarrow> (fault \<times> byte list list) + byte list list" where
  "xor_into out k j v =
     (if k < length out \<and> j < length (out ! k)
      then Inr (out[k := (out ! k)[j := out ! k ! j XOR v]])
      else Inl (RuntimeIndexError, out))"

text \<open>
  \<open>Code\<close>. The two checks come first, in the order of the source; the output matrix is
  local, so a panic leaves nothing behind.
\<close>

definition Code :: "ErasureCoder \<Rightarrow> byte list list \<Rightarrow> fault + byte list list" where
  "Code p inp =
     (if length inp \<noteq> Degree p then Inl ShapeMismatch
      else if \<not> list_all (\<lambda>row. length row = length (inp ! 0)) inp then Inl RaggedInput
      else if interp p = [] then Inl RuntimeIndexError
      else (case for_each [0..<length inp]
                   (\<lambda>i. for_each [0..<length (inp ! i)]
                     (\<lambda>j. for_each [0..<length (interp p ! i)]
                       (\<lambda>k out. xor_into out k j (mult (inp ! i ! j) (interp p ! i ! k)))))
                   (makeMatrix (length (interp p ! 0)) (length (inp ! 0))) of
              Inl (e, out) \<Rightarrow> Inl e
            | Inr out \<Rightarrow> Inr out))"

text \<open>
  \<open>Update\<close> works in place: the result is the state of \<open>out\<close> when the call ends,
  \<open>Inr\<close> after a return and \<open>Inl\<close>, with the fault, after a panic. The index check is
  \<open>idx >= uint8(len(p.interp))\<close>, a comparison of bytes; an index that passes it is below
  \<open>len(p.interp)\<close>, so \<open>p.interp[0]\<close> and \<open>p.interp[idx]\<close> exist. The rows of \<open>out\<close> are
  taken to be separate buffers.
\<close>

definition Update :: "ErasureCoder \<Rightarrow> byte \<Rightarrow> byte list \<Rightarrow> byte list list \<Rightarrow> (fault \<times> byte list list) + byte list list" where
  "Update p idx in_delta out =
     (if idx \<ge> of_nat (length (interp p)) then Inl (IndexOutOfRange, out)
      else if length out \<noteq> length (interp p ! 0) then Inl (ShapeMismatch, out)
      else if \<not> list_all (\<lambda>row. length in_delta = length row) out then Inl (RaggedInput, out)
      else for_each [0..<length in_delta]
             (\<lambda>j. for_each [0..<length (interp p ! unat idx)]
               (\<lambda>k out. xor_into out k j (mult (in_delta ! j) (interp p ! unat idx ! k))))
             out)"

section \<open>The coder as the specification words it\<close>

text \<open>
  The Lagrange basis value of the specification:
  \<open>M[i][j] = \<Prod>_{k\<noteq>i} (x_out[j] \<oplus> x_in[k]) \<cdot> inv(x_in[i] \<oplus> x_in[k])\<close>, at the output
  abscissa \<open>y\<close>.
\<close>

definition lagrange_spec :: "byte list \<Rightarrow> nat \<Rightarrow> byte \<Rightarrow> byte" where
  "lagrange_spec in_x i y =
     foldr mult
       (map (\<lambda>k. mult (y XOR in_x ! k) (inv_tab ! unat (in_x ! i XOR in_x ! k)))
          (filter (\<lambda>k. k \<noteq> i) [0..<length in_x]))
       1"

definition xor_sum :: "byte list \<Rightarrow> byte" where
  "xor_sum xs = foldr (XOR) xs 0"

text \<open>\<open>out[k][j] = XOR over i of multiply(in[i][j], M[i][k])\<close>.\<close>

definition code_spec :: "byte list \<Rightarrow> byte list \<Rightarrow> byte list list \<Rightarrow> byte list list" where
  "code_spec in_x out_x inp =
     map (\<lambda>k. map (\<lambda>j. xor_sum (map (\<lambda>i. mult (inp ! i ! j) (lagrange_spec in_x i (out_x ! k)))
                                  [0..<length in_x]))
                 [0..<length (inp ! 0)])
       [0..<length out_x]"

section \<open>Auxiliary notions of the proofs\<close>

text \<open>
  \<open>xtime\<close> is the closed form of \<open>galois_multiply a 2\<close>: shift left, and subtract the
  characteristic polynomial when the top bit leaves the byte.
\<close>

definition xtime :: "byte \<Rightarrow> byte" where
  "xtime a = push_bit 1 a XOR (if bit a 7 then 29 else 0)"

primrec bytes_from :: "nat \<Rightarrow> byte \<Rightarrow> byte list" where
  "bytes_from 0 a = []"
| "bytes_from (Suc n) a = a # bytes_from n (a + 1)"

primrec pow_list :: "nat \<Rightarrow> byte \<Rightarrow> byte list" where
  "pow_list 0 a = []"
| "pow_list (Suc n) a = a # pow_list n (xtime a)"

text \<open>The check of one byte against the closed form, for the run through all 256 bytes.\<close>

definition gm2_ok :: "byte \<Rightarrow> bool" where
  "gm2_ok a = (galois_multiply a 2 = xtime a)"

text \<open>\<open>xtime\<close> is one to one: \<open>xtime_inv\<close> undoes it.\<close>

definition xtime_inv :: "byte \<Rightarrow> byte" where
  "xtime_inv a = (if bit a 0 then drop_bit 1 (a XOR 29) OR 128 else drop_bit 1 a)"

definition xtime_inv_ok :: "byte \<Rightarrow> bool" where
  "xtime_inv_ok a = (xtime_inv (xtime a) = a)"

text \<open>\<open>gpow k\<close> is the generator 2 raised to the power \<open>k\<close>.\<close>

definition gpow :: "nat \<Rightarrow> byte" where
  "gpow k = (xtime ^^ k) 1"

text \<open>The discrete logarithm that \<open>log\<close> stores.\<close>

definition dlog :: "byte \<Rightarrow> nat" where
  "dlog a = unat (log_tab ! unat a)"

text \<open>A matrix of \<open>r\<close> rows and \<open>c\<close> columns, given by its entries.\<close>

definition matrix_of :: "nat \<Rightarrow> nat \<Rightarrow> (nat \<Rightarrow> nat \<Rightarrow> byte) \<Rightarrow> byte list list" where
  "matrix_of r c F = map (\<lambda>k. map (F k) [0..<c]) [0..<r]"

text \<open>A polynomial is the list of its coefficients, the constant first.\<close>

primrec peval :: "'a::field list \<Rightarrow> 'a \<Rightarrow> 'a" where
  "peval [] x = 0"
| "peval (c # cs) x = c + x * peval cs x"

fun padd :: "'a::field list \<Rightarrow> 'a list \<Rightarrow> 'a list" where
  "padd [] q = q"
| "padd p [] = p"
| "padd (a # p) (b # q) = (a + b) # padd p q"

text \<open>\<open>poly_fun n f\<close>: \<open>f\<close> is a polynomial function with at most \<open>n\<close> coefficients.\<close>

definition poly_fun :: "nat \<Rightarrow> ('a::field \<Rightarrow> 'a) \<Rightarrow> bool" where
  "poly_fun n f = (\<exists>cs. length cs \<le> n \<and> f = peval cs)"

text \<open>The Lagrange basis polynomial of node \<open>i\<close> of the nodes \<open>xs\<close>, at \<open>y\<close>.\<close>

definition lag :: "'a::field list \<Rightarrow> nat \<Rightarrow> 'a \<Rightarrow> 'a" where
  "lag xs i y = (\<Prod>k\<in>{..<length xs} - {i}. (y - xs ! k) * inverse (xs ! i - xs ! k))"

section \<open>Multiplication by the generator\<close>

lemma bytes_from_numeral:
  "bytes_from (numeral n) a = a # bytes_from (pred_numeral n) (a + 1)"
  by (simp add: numeral_eq_Suc)

lemma pow_list_numeral:
  "pow_list (numeral n) a = a # pow_list (pred_numeral n) (xtime a)"
  by (simp add: numeral_eq_Suc)

lemma set_bytes_from: "set (bytes_from n a) = (\<lambda>k. a + of_nat k) ` {..<n}"
proof (induction n arbitrary: a)
  case 0
  show ?case by simp
next
  case (Suc n)
  have "(\<lambda>k. a + of_nat k) ` {..<Suc n} = insert a ((\<lambda>k. a + 1 + of_nat k) ` {..<n})"
    by (auto simp: lessThan_Suc_eq_insert_0 image_image add.assoc)
  with Suc show ?case by simp
qed

lemma byte_in_bytes_from: "(a :: byte) \<in> set (bytes_from 256 0)"
proof -
  have "unat a < 256"
    using unsigned_less [of a, where ?'a = nat] by simp
  then have "of_nat (unat a) \<in> (\<lambda>k. (0 :: byte) + of_nat k) ` {..<256}"
    by (intro image_eqI [where x = "unat a"]) simp_all
  then show ?thesis
    by (simp add: set_bytes_from)
qed

lemma byte_exhaust: "list_all P (bytes_from 256 0) \<Longrightarrow> P (a :: byte)"
  using byte_in_bytes_from [of a] by (simp add: list_all_iff)

lemma galois_multiply_2_all: "list_all gm2_ok (bytes_from 256 0)"
  by (simp add: bytes_from_numeral gm2_ok_def galois_multiply_def gm_mul_loop.simps
      gm_reduce_loop.simps cp_84320_def xtime_def)

lemma galois_multiply_2: "galois_multiply a 2 = xtime a"
  using byte_exhaust [of gm2_ok a, OF galois_multiply_2_all] by (simp add: gm2_ok_def)


section \<open>The generator has order 255\<close>

lemma xtime_zero: "xtime 0 = 0"
  by (simp add: xtime_def)

lemma xtime_xor: "xtime (a XOR b) = xtime a XOR xtime b"
  by (cases "bit a 7"; cases "bit b 7") (simp_all add: xtime_def bit_xor_iff ac_simps)

lemma xtime_inv_all: "list_all xtime_inv_ok (bytes_from 256 0)"
  by (simp add: bytes_from_numeral xtime_inv_ok_def xtime_inv_def xtime_def)

lemma xtime_inv_xtime: "xtime_inv (xtime a) = a"
  using byte_exhaust [of xtime_inv_ok a, OF xtime_inv_all] by (simp add: xtime_inv_ok_def)

lemma xtime_inject: "xtime a = xtime b \<longleftrightarrow> a = b"
  by (metis xtime_inv_xtime)

lemma xtime_eq_zero: "xtime a = 0 \<longleftrightarrow> a = 0"
  using xtime_inject [of a 0] by (simp add: xtime_zero)

lemma funpow_xtime_zero: "(xtime ^^ n) 0 = 0"
  by (induction n) (simp_all add: xtime_zero)

lemma funpow_xtime_xor: "(xtime ^^ n) (a XOR b) = (xtime ^^ n) a XOR (xtime ^^ n) b"
  by (induction n) (simp_all add: xtime_xor)

lemma funpow_xtime_inject: "(xtime ^^ n) a = (xtime ^^ n) b \<longleftrightarrow> a = b"
  by (induction n) (simp_all add: xtime_inject)

lemma length_pow_list: "length (pow_list n a) = n"
  by (induction n arbitrary: a) simp_all

lemma pow_list_nth: "k < n \<Longrightarrow> pow_list n a ! k = (xtime ^^ k) a"
proof (induction n arbitrary: a k)
  case 0
  then show ?case by simp
next
  case (Suc n)
  show ?case
  proof (cases k)
    case 0
    then show ?thesis by simp
  next
    case (Suc j)
    with Suc.prems have "j < n" by simp
    with Suc.IH [of j "xtime a"] Suc show ?thesis
      by (simp add: funpow_swap1)
  qed
qed

lemma pow_list_255:
  "pow_list 255 1 =
   [1, 2, 4, 8, 16, 32, 64, 128, 29, 58, 116, 232, 205, 135, 19, 38, 76, 152, 45, 90, 180, 117,
    234, 201, 143, 3, 6, 12, 24, 48, 96, 192, 157, 39, 78, 156, 37, 74, 148, 53, 106, 212, 181,
    119, 238, 193, 159, 35, 70, 140, 5, 10, 20, 40, 80, 160, 93, 186, 105, 210, 185, 111, 222,
    161, 95, 190, 97, 194, 153, 47, 94, 188, 101, 202, 137, 15, 30, 60, 120, 240, 253, 231,
    211, 187, 107, 214, 177, 127, 254, 225, 223, 163, 91, 182, 113, 226, 217, 175, 67, 134, 17,
    34, 68, 136, 13, 26, 52, 104, 208, 189, 103, 206, 129, 31, 62, 124, 248, 237, 199, 147, 59,
    118, 236, 197, 151, 51, 102, 204, 133, 23, 46, 92, 184, 109, 218, 169, 79, 158, 33, 66,
    132, 21, 42, 84, 168, 77, 154, 41, 82, 164, 85, 170, 73, 146, 57, 114, 228, 213, 183, 115,
    230, 209, 191, 99, 198, 145, 63, 126, 252, 229, 215, 179, 123, 246, 241, 255, 227, 219,
    171, 75, 150, 49, 98, 196, 149, 55, 110, 220, 165, 87, 174, 65, 130, 25, 50, 100, 200, 141,
    7, 14, 28, 56, 112, 224, 221, 167, 83, 166, 81, 162, 89, 178, 121, 242, 249, 239, 195, 155,
    43, 86, 172, 69, 138, 9, 18, 36, 72, 144, 61, 122, 244, 245, 247, 243, 251, 235, 203, 139,
    11, 22, 44, 88, 176, 125, 250, 233, 207, 131, 27, 54, 108, 216, 173, 71, 142]"
  by (simp add: pow_list_numeral xtime_def)

lemma gpow_nth: "k < 255 \<Longrightarrow> gpow k = pow_list 255 1 ! k"
  by (simp add: pow_list_nth gpow_def)

lemma gpow_254: "gpow 254 = 142"
  by (simp add: gpow_nth pow_list_255)

lemma gpow_255: "gpow 255 = 1"
proof -
  have "gpow 255 = xtime (gpow 254)"
    by (simp add: gpow_def numeral_eq_Suc)
  then show ?thesis
    by (simp add: gpow_254 xtime_def)
qed

lemma one_notin_tl_pow_list: "1 \<notin> set (tl (pow_list 255 1))"
  by (simp add: pow_list_255)

lemma gpow_neq_one:
  assumes "0 < k" and "k < 255"
  shows "gpow k \<noteq> 1"
proof -
  have "k - 1 < length (tl (pow_list 255 1))"
    using assms by (simp add: length_pow_list)
  then have "tl (pow_list 255 1) ! (k - 1) \<in> set (tl (pow_list 255 1))"
    by (rule nth_mem)
  moreover have "tl (pow_list 255 1) ! (k - 1) = gpow k"
    using assms by (simp add: nth_tl length_pow_list gpow_nth)
  ultimately show ?thesis
    using one_notin_tl_pow_list by metis
qed

lemma gpow_add: "gpow (j + k) = (xtime ^^ j) (gpow k)"
  by (simp add: gpow_def funpow_add)

lemma gpow_Suc: "gpow (Suc k) = xtime (gpow k)"
  by (simp add: gpow_def)

lemma gpow_neq_zero: "gpow k \<noteq> 0"
  by (induction k) (simp_all add: gpow_Suc xtime_eq_zero gpow_def)

lemma gpow_add_255: "gpow (k + 255) = gpow k"
  using gpow_add [of k 255] by (simp add: gpow_255) (simp add: gpow_def)

lemma gpow_mod: "gpow (k mod 255) = gpow k"
proof (induction k rule: less_induct)
  case (less k)
  show ?case
  proof (cases "k < 255")
    case True
    then show ?thesis by simp
  next
    case False
    then have "(k - 255) mod 255 = k mod 255" and "k - 255 < k" and "k - 255 + 255 = k"
      by (simp_all add: le_mod_geq)
    with less.IH [of "k - 255"] gpow_add_255 [of "k - 255"] show ?thesis
      by simp
  qed
qed

lemma gpow_inject:
  assumes "j < 255" and "k < 255" and "gpow j = gpow k"
  shows "j = k"
proof -
  have aux: "m = n" if "m \<le> n" and "n < 255" and "gpow m = gpow n" for m n
  proof (rule ccontr)
    assume "m \<noteq> n"
    with that have pos: "0 < n - m" and small: "n - m < 255" and split: "n = m + (n - m)"
      by simp_all
    have "(xtime ^^ m) (gpow (n - m)) = (xtime ^^ m) 1"
      using that(3) gpow_add [of m "n - m"] split by (simp add: gpow_def)
    then have "gpow (n - m) = 1"
      by (simp add: funpow_xtime_inject)
    with gpow_neq_one [OF pos small] show False
      by simp
  qed
  show ?thesis
  proof (cases "j \<le> k")
    case True
    with aux [of j k] assms show ?thesis by simp
  next
    case False
    with aux [of k j] assms show ?thesis by simp
  qed
qed

lemma gpow_surj:
  assumes "a \<noteq> 0"
  shows "\<exists>k<255. gpow k = a"
proof -
  have inj: "inj_on gpow {..<255}"
    by (rule inj_onI) (simp add: gpow_inject)
  have "card (gpow ` {..<255}) = 255"
    using card_image [OF inj] by simp
  moreover have "card (UNIV - {0 :: byte}) = 255"
    by (simp add: card_Diff_singleton card_word)
  moreover have "gpow ` {..<255} \<subseteq> UNIV - {0}"
    using gpow_neq_zero by auto
  ultimately have "gpow ` {..<255} = UNIV - {0}"
    by (intro card_subset_eq) simp_all
  with assms have "a \<in> gpow ` {..<255}"
    by simp
  then show ?thesis
    by auto
qed

section \<open>What init leaves in the tables\<close>

lemma init_loop_invariant:
  assumes "n \<le> 255" and "length e0 = 255" and "length l0 = 256"
  shows "\<exists>e l. fold init_step [0..<n] (1, e0, l0) = (gpow n, e, l)
           \<and> length e = 255 \<and> length l = 256
           \<and> (\<forall>k<n. e ! k = gpow k)
           \<and> (\<forall>k<n. l ! unat (gpow k) = of_nat k)
           \<and> l ! 0 = l0 ! 0"
  using assms(1)
proof (induction n)
  case 0
  show ?case
    using assms(2,3) by (simp add: gpow_def)
next
  case (Suc n)
  then obtain e l where st: "fold init_step [0..<n] (1, e0, l0) = (gpow n, e, l)"
    and len: "length e = 255" "length l = 256"
    and e: "\<forall>k<n. e ! k = gpow k"
    and l: "\<forall>k<n. l ! unat (gpow k) = of_nat k"
    and z: "l ! 0 = l0 ! 0"
    by auto
  let ?e = "e[n := gpow n]" and ?l = "l[unat (gpow n) := of_nat n]"
  have step: "fold init_step [0..<Suc n] (1, e0, l0) = (gpow (Suc n), ?e, ?l)"
    by (simp add: st init_step_def galois_multiply_2 gpow_Suc)
  have in_range: "unat (gpow n) < 256"
    using unsigned_less [of "gpow n", where ?'a = nat] by simp
  have e': "?e ! k = gpow k" if "k < Suc n" for k
    using that e len Suc.prems by (cases "k = n") simp_all
  have l': "?l ! unat (gpow k) = of_nat k" if "k < Suc n" for k
  proof (cases "k = n")
    case True
    with in_range len show ?thesis by simp
  next
    case False
    with that Suc.prems have "gpow k \<noteq> gpow n"
      using gpow_inject [of k n] by auto
    then have "unat (gpow n) \<noteq> unat (gpow k)"
      by (simp add: word_unat_eq_iff)
    with l that False show ?thesis by simp
  qed
  have "unat (gpow n) \<noteq> 0"
    by (simp add: unat_eq_0 gpow_neq_zero)
  then have z': "?l ! 0 = l0 ! 0"
    using z by simp
  show ?case
    using step len e' l' z' by auto
qed

lemma length_fold_update: "length (fold (\<lambda>i w. w[i := f i]) xs v) = length v"
  by (induction xs arbitrary: v) simp_all

lemma fold_update_nth:
  "j < length v \<Longrightarrow>
     fold (\<lambda>i w. w[i := f i]) [a..<b] v ! j = (if a \<le> j \<and> j < b then f j else v ! j)"
proof (induction b)
  case 0
  then show ?case by simp
next
  case (Suc b)
  show ?case
  proof (cases "a \<le> b")
    case True
    show ?thesis
    proof (cases "j = b")
      case eq: True
      with True Suc.prems show ?thesis
        by (simp add: length_fold_update)
    next
      case False
      with True Suc show ?thesis
        by auto
    qed
  next
    case False
    then have "[a..<Suc b] = []" and "\<not> (a \<le> j \<and> j < Suc b)"
      by simp_all
    then show ?thesis
      by (simp only: fold.simps id_apply if_False)
  qed
qed

lemma init_tables:
  "length (fst init) = 255 \<and> length (fst (snd init)) = 256
     \<and> (\<forall>k<255. fst init ! k = gpow k)
     \<and> (\<forall>k<255. fst (snd init) ! unat (gpow k) = of_nat k)
     \<and> fst (snd init) ! 0 = 0
     \<and> snd (snd init) = fold (init_inv_step (fst init) (fst (snd init))) [2..<256]
           ((replicate 256 0)[0 := 0, 1 := 1])"
proof -
  obtain e l where "fold init_step [0..<255] (1, replicate 255 0, replicate 256 0) = (gpow 255, e, l)"
    and "length e = 255" "length l = 256" "\<forall>k<255. e ! k = gpow k"
    "\<forall>k<255. l ! unat (gpow k) = of_nat k" "l ! 0 = replicate 256 (0 :: byte) ! 0"
    using init_loop_invariant [of 255 "replicate 255 0" "replicate 256 0"] by auto
  then show ?thesis
    by (simp add: init_def del: upt_rec_numeral)
qed

lemma length_exp_tab: "length exp_tab = 255"
  using init_tables by (simp add: exp_tab_def)

lemma length_log_tab: "length log_tab = 256"
  using init_tables by (simp add: log_tab_def)

lemma inv_tab_fold:
  "inv_tab = fold (\<lambda>i w. w[i := exp_tab ! (255 - unat (log_tab ! i))]) [2..<256]
     ((replicate 256 0)[0 := 0, 1 := 1])"
  using init_tables
  by (simp add: inv_tab_def exp_tab_def log_tab_def init_inv_step_def [abs_def] del: upt_rec_numeral)

lemma length_inv_tab: "length inv_tab = 256"
  by (simp add: inv_tab_fold length_fold_update del: upt_rec_numeral)

lemma exp_tab_nth: "k < 255 \<Longrightarrow> exp_tab ! k = gpow k"
  using init_tables by (simp add: exp_tab_def)

lemma log_tab_gpow: "k < 255 \<Longrightarrow> log_tab ! unat (gpow k) = of_nat k"
  using init_tables by (simp add: log_tab_def)

lemma log_tab_zero: "log_tab ! 0 = 0"
  using init_tables by (simp add: log_tab_def)

lemma inv_tab_nth:
  assumes "i < 256"
  shows "inv_tab ! i =
           (if 2 \<le> i then exp_tab ! (255 - unat (log_tab ! i)) else if i = 1 then 1 else 0)"
proof -
  have "inv_tab ! i = (if 2 \<le> i \<and> i < 256 then exp_tab ! (255 - unat (log_tab ! i))
      else (replicate 256 0)[0 := 0, 1 := 1] ! i)"
    unfolding inv_tab_fold using assms by (subst fold_update_nth) simp_all
  also have "\<dots> = (if 2 \<le> i then exp_tab ! (255 - unat (log_tab ! i)) else if i = 1 then 1 else 0)"
    using assms by (auto simp: nth_list_update)
  finally show ?thesis .
qed

lemma dlog_gpow_less: "k < 255 \<Longrightarrow> dlog (gpow k) = k"
  by (simp add: dlog_def log_tab_gpow unat_of_nat)

lemma dlog_gpow: "dlog (gpow k) = k mod 255"
  using dlog_gpow_less [of "k mod 255"] by (simp add: gpow_mod)

lemma dlog_less: "a \<noteq> 0 \<Longrightarrow> dlog a < 255"
  using gpow_surj [of a] dlog_gpow_less by auto

lemma gpow_dlog: "a \<noteq> 0 \<Longrightarrow> gpow (dlog a) = a"
  using gpow_surj [of a] dlog_gpow_less by auto

lemma dlog_one: "dlog 1 = 0"
  using dlog_gpow_less [of 0] by (simp add: gpow_def)

lemma dlog_zero: "dlog 0 = 0"
  by (simp add: dlog_def log_tab_zero)

lemma dlog_eq_zero: "a \<noteq> 0 \<Longrightarrow> dlog a = 0 \<longleftrightarrow> a = 1"
  using gpow_dlog [of a] dlog_one by (auto simp: gpow_def)

text \<open>
  No table read of \<open>mult\<close> and \<open>lagrange\<close> can leave its array: \<open>log\<close> and \<open>inv\<close> have
  an entry for every byte, and every index \<open>mult\<close> reads in \<open>exp\<close> is inside the array.
\<close>

lemma byte_index_in_range: "unat (a :: byte) < length log_tab" "unat (a :: byte) < length inv_tab"
  using unsigned_less [of a, where ?'a = nat] by (simp_all add: length_log_tab length_inv_tab)

lemma mult_index_in_range:
  assumes "(a :: byte) \<noteq> 0" and "(b :: byte) \<noteq> 0"
  shows "nat (if uint (log_tab ! unat a) + uint (log_tab ! unat b) \<ge> 255
              then uint (log_tab ! unat a) + uint (log_tab ! unat b) - 255
              else uint (log_tab ! unat a) + uint (log_tab ! unat b)) < length exp_tab"
proof -
  have a: "uint (log_tab ! unat a) = int (dlog a)" and b: "uint (log_tab ! unat b) = int (dlog b)"
    by (simp_all add: dlog_def)
  show ?thesis
    unfolding a b length_exp_tab
    using dlog_less [OF assms(1)] dlog_less [OF assms(2)] by auto
qed

lemma mult_nonzero:
  assumes "a \<noteq> 0" and "b \<noteq> 0"
  shows "mult a b = gpow (dlog a + dlog b)"
proof -
  let ?s = "dlog a + dlog b"
  have bound: "?s < 510"
    using dlog_less [OF assms(1)] dlog_less [OF assms(2)] by simp
  have idx: "uint (log_tab ! unat a) + uint (log_tab ! unat b) = int ?s"
    by (simp add: dlog_def)
  have "mult a b = exp_tab ! nat (if int ?s \<ge> 255 then int ?s - 255 else int ?s)"
    using assms by (simp add: mult_def Let_def idx del: of_nat_add)
  also have "nat (if int ?s \<ge> 255 then int ?s - 255 else int ?s) = ?s mod 255"
    using bound by (auto simp: le_mod_geq nat_diff_distrib simp del: of_nat_add)
  also have "exp_tab ! (?s mod 255) = gpow ?s"
    by (simp add: exp_tab_nth gpow_mod)
  finally show ?thesis .
qed

lemma mult_zero_right: "mult a 0 = 0"
  by (simp add: mult_def)

lemma mult_zero_left: "mult 0 a = 0"
  by (simp add: mult_def)

lemma mult_commute: "mult a b = mult b a"
  by (simp add: mult_def Let_def add.commute disj_commute)

lemma mult_eq_zero: "mult a b = 0 \<longleftrightarrow> a = 0 \<or> b = 0"
proof (cases "a = 0 \<or> b = 0")
  case True
  then show ?thesis
    by (auto simp: mult_zero_left mult_zero_right)
next
  case False
  then show ?thesis
    by (simp add: mult_nonzero gpow_neq_zero)
qed

lemma mult_gpow: "mult (gpow j) (gpow k) = gpow (j + k)"
proof -
  have "gpow (j mod 255 + k mod 255) = gpow ((j mod 255 + k mod 255) mod 255)"
    by (simp only: gpow_mod)
  also have "\<dots> = gpow ((j + k) mod 255)"
    by (simp add: mod_add_eq)
  finally show ?thesis
    by (simp add: mult_nonzero gpow_neq_zero dlog_gpow gpow_mod)
qed

lemma mult_assoc: "mult (mult a b) c = mult a (mult b c)"
proof (cases "a = 0 \<or> b = 0 \<or> c = 0")
  case True
  then show ?thesis
    by (auto simp: mult_zero_left mult_zero_right)
next
  case False
  then have "a = gpow (dlog a)" "b = gpow (dlog b)" "c = gpow (dlog c)"
    by (simp_all add: gpow_dlog)
  then show ?thesis
    by (metis mult_gpow add.assoc)
qed

lemma mult_one_right: "mult a 1 = a"
proof (cases "a = 0")
  case True
  then show ?thesis by (simp add: mult_zero_left)
next
  case False
  then show ?thesis
    by (simp add: mult_nonzero dlog_one gpow_dlog)
qed

lemma mult_one_left: "mult 1 a = a"
  by (simp add: mult_commute [of 1 a] mult_one_right)

lemma mult_funpow_xtime: "a \<noteq> 0 \<Longrightarrow> mult a x = (xtime ^^ dlog a) x"
proof (cases "x = 0")
  case True
  then show ?thesis
    by (simp add: mult_zero_right funpow_xtime_zero)
next
  case False
  assume "a \<noteq> 0"
  with False show ?thesis
    by (simp add: mult_nonzero gpow_add gpow_dlog)
qed

lemma mult_xor_right: "mult a (b XOR c) = mult a b XOR mult a c"
proof (cases "a = 0")
  case True
  then show ?thesis by (simp add: mult_zero_left)
next
  case False
  then show ?thesis
    by (simp add: mult_funpow_xtime funpow_xtime_xor)
qed

lemma mult_xor_left: "mult (a XOR b) c = mult a c XOR mult b c"
  by (simp add: mult_commute [of _ c] mult_xor_right)

lemma inv_tab_zero: "inv_tab ! 0 = 0"
  using inv_tab_nth [of 0] by simp

lemma inv_tab_one: "inv_tab ! unat (1 :: byte) = 1"
  using inv_tab_nth [of 1] by simp

lemma inv_index_in_range:
  assumes "(a :: byte) \<noteq> 0" and "a \<noteq> 1"
  shows "255 - unat (log_tab ! unat a) < length exp_tab" and "2 \<le> unat a"
proof -
  have "dlog a \<noteq> 0"
    using assms by (simp add: dlog_eq_zero)
  then show "255 - unat (log_tab ! unat a) < length exp_tab"
    by (simp add: dlog_def length_exp_tab)
  have "unat a \<noteq> 0"
    using assms(1) by (simp add: unat_eq_0)
  moreover have "unat a \<noteq> 1"
    using assms(2) word_unat_eq_iff [of a 1] by simp
  ultimately show "2 \<le> unat a"
    by simp
qed

lemma inv_tab_gpow:
  assumes "a \<noteq> 0"
  shows "inv_tab ! unat a = gpow (255 - dlog a)"
proof (cases "a = 1")
  case True
  then show ?thesis
    using inv_tab_one by (simp add: dlog_one gpow_255)
next
  case False
  have lt: "unat a < 256"
    using unsigned_less [of a, where ?'a = nat] by simp
  have "255 - dlog a < 255"
    using inv_index_in_range(1) [OF assms False] by (simp add: dlog_def length_exp_tab)
  with inv_index_in_range(2) [OF assms False] lt show ?thesis
    by (simp add: inv_tab_nth exp_tab_nth dlog_def)
qed

lemma mult_inv_tab: "a \<noteq> 0 \<Longrightarrow> mult a (inv_tab ! unat a) = 1"
proof -
  assume nz: "a \<noteq> 0"
  have "mult (gpow (dlog a)) (gpow (255 - dlog a)) = gpow (dlog a + (255 - dlog a))"
    by (rule mult_gpow)
  also have "dlog a + (255 - dlog a) = 255"
    using dlog_less [OF nz] by simp
  finally show ?thesis
    using nz by (simp add: inv_tab_gpow gpow_dlog gpow_255)
qed

lemma inv_tab_neq_zero: "(a :: byte) \<noteq> 0 \<Longrightarrow> inv_tab ! unat a \<noteq> 0"
  by (simp add: inv_tab_gpow gpow_neq_zero)

section \<open>The loops of the coder\<close>

lemma length_matrix_of: "length (matrix_of r c F) = r"
  by (simp add: matrix_of_def)

lemma matrix_of_nth: "k < r \<Longrightarrow> matrix_of r c F ! k = map (F k) [0..<c]"
  by (simp add: matrix_of_def)

lemma matrix_of_cong:
  "(\<And>k j. k < r \<Longrightarrow> j < c \<Longrightarrow> F k j = G k j) \<Longrightarrow> matrix_of r c F = matrix_of r c G"
  by (simp add: matrix_of_def)

lemma makeMatrix_matrix_of: "makeMatrix r c = matrix_of r c (\<lambda>k j. 0)"
  by (simp add: makeMatrix_def matrix_of_def map_replicate_const)

lemma matrix_of_entries:
  assumes "length out = r" and "list_all (\<lambda>row. length row = c) out"
  shows "out = matrix_of r c (\<lambda>k j. out ! k ! j)"
proof (rule nth_equalityI)
  show "length out = length (matrix_of r c (\<lambda>k j. out ! k ! j))"
    using assms(1) by (simp add: length_matrix_of)
next
  fix k
  assume "k < length out"
  then have "length (out ! k) = c"
    using assms(2) by (simp add: list_all_length)
  then have "out ! k = map ((!) (out ! k)) [0..<c]"
    using map_nth [of "out ! k"] by simp
  with \<open>k < length out\<close> assms(1) show "out ! k = matrix_of r c (\<lambda>k j. out ! k ! j) ! k"
    by (simp add: matrix_of_nth)
qed

lemma for_each_snoc:
  "for_each (xs @ [x]) body s =
     (case for_each xs body s of Inl e \<Rightarrow> Inl e | Inr t \<Rightarrow> body x t)"
  by (induction xs arbitrary: s) (simp_all split: sum.splits)

lemma for_each_cong:
  "(\<And>i. i \<in> set xs \<Longrightarrow> body i = body' i) \<Longrightarrow> for_each xs body s = for_each xs body' s"
  by (induction xs arbitrary: s) (simp_all split: sum.splits)

lemma xor_into_matrix_of:
  assumes "k < r" and "j < c"
  shows "xor_into (matrix_of r c F) k j v =
           Inr (matrix_of r c (\<lambda>k' j'. if k' = k \<and> j' = j then F k' j' XOR v else F k' j'))"
proof -
  let ?G = "\<lambda>k' j'. if k' = k \<and> j' = j then F k' j' XOR v else F k' j'"
  have row: "(map (F k) [0..<c])[j := F k j XOR v] = map (?G k) [0..<c]"
    using assms(2) by (intro nth_equalityI) (simp_all add: nth_list_update)
  have "(matrix_of r c F)[k := map (?G k) [0..<c]] = matrix_of r c ?G"
    using assms(1)
    by (intro nth_equalityI) (auto simp: length_matrix_of matrix_of_nth nth_list_update)
  with assms row show ?thesis
    by (simp add: xor_into_def length_matrix_of matrix_of_nth)
qed

lemma row_loop:
  assumes "b \<le> r" and "j < c"
  shows "for_each [0..<b] (\<lambda>k out. xor_into out k j (g k)) (matrix_of r c F) =
           Inr (matrix_of r c (\<lambda>k' j'. if j' = j \<and> k' < b then F k' j' XOR g k' else F k' j'))"
  using assms(1)
proof (induction b)
  case 0
  show ?case by simp
next
  case (Suc b)
  then have "b < r" by simp
  have "(\<lambda>k' j'. if k' = b \<and> j' = j
           then (if j' = j \<and> k' < b then F k' j' XOR g k' else F k' j') XOR g b
           else (if j' = j \<and> k' < b then F k' j' XOR g k' else F k' j'))
      = (\<lambda>k' j'. if j' = j \<and> k' < Suc b then F k' j' XOR g k' else F k' j')"
    by (intro ext) (auto simp: less_Suc_eq)
  with Suc \<open>b < r\<close> assms(2) show ?case
    by (simp add: for_each_snoc xor_into_matrix_of)
qed

lemma column_loop:
  assumes "b \<le> c"
  shows "for_each [0..<b] (\<lambda>j. for_each [0..<r] (\<lambda>k out. xor_into out k j (g j k)))
             (matrix_of r c F) =
           Inr (matrix_of r c (\<lambda>k' j'. if j' < b \<and> k' < r then F k' j' XOR g j' k' else F k' j'))"
  using assms
proof (induction b)
  case 0
  show ?case by simp
next
  case (Suc b)
  then have "b < c" by simp
  have "(\<lambda>k' j'. if j' = b \<and> k' < r
           then (if j' < b \<and> k' < r then F k' j' XOR g j' k' else F k' j') XOR g b k'
           else (if j' < b \<and> k' < r then F k' j' XOR g j' k' else F k' j'))
      = (\<lambda>k' j'. if j' < Suc b \<and> k' < r then F k' j' XOR g j' k' else F k' j')"
    by (intro ext) (auto simp: less_Suc_eq)
  with Suc \<open>b < c\<close> show ?case
    by (simp add: for_each_snoc row_loop)
qed

lemma input_loop:
  "for_each [0..<b]
       (\<lambda>i. for_each [0..<c] (\<lambda>j. for_each [0..<r] (\<lambda>k out. xor_into out k j (g i j k))))
       (matrix_of r c F) =
     Inr (matrix_of r c (\<lambda>k' j'. fold (\<lambda>i a. a XOR g i j' k') [0..<b] (F k' j')))"
proof (induction b)
  case 0
  show ?case by simp
next
  case (Suc b)
  have "matrix_of r c (\<lambda>k' j'. if j' < c \<and> k' < r
           then fold (\<lambda>i a. a XOR g i j' k') [0..<b] (F k' j') XOR g b j' k'
           else fold (\<lambda>i a. a XOR g i j' k') [0..<b] (F k' j'))
      = matrix_of r c (\<lambda>k' j'. fold (\<lambda>i a. a XOR g i j' k') [0..<Suc b] (F k' j'))"
    by (rule matrix_of_cong) simp
  with Suc show ?case
    by (simp add: for_each_snoc column_loop)
qed

lemma fold_xor_sum: "fold (\<lambda>i a. a XOR f i) xs z = z XOR xor_sum (map f xs)"
  by (induction xs arbitrary: z) (simp_all add: xor_sum_def ac_simps)

text \<open>The matrix that \<open>NewErasureCoder\<close> builds, entry by entry.\<close>

lemma fold_row_update:
  "i < length m \<Longrightarrow>
     fold (\<lambda>j m. m[i := (m ! i)[j := g j]]) js m = m[i := fold (\<lambda>j row. row[j := g j]) js (m ! i)]"
  by (induction js arbitrary: m) simp_all

lemma fold_rows_nth:
  "k < length m \<Longrightarrow>
     fold (\<lambda>i m. m[i := h i (m ! i)]) [0..<b] m ! k = (if k < b then h k (m ! k) else m ! k)"
proof (induction b)
  case 0
  show ?case by simp
next
  case (Suc b)
  have len: "length (fold (\<lambda>i m. m[i := h i (m ! i)]) [0..<b] m) = length m"
    by (induction b) simp_all
  show ?case
  proof (cases "k = b")
    case True
    with Suc show ?thesis by (simp add: len)
  next
    case False
    with Suc show ?thesis by auto
  qed
qed

lemma length_fold_rows: "length (fold (\<lambda>i m. m[i := h i (m ! i)]) xs m) = length m"
  by (induction xs arbitrary: m) simp_all

lemma fold_cells:
  "length row = c \<Longrightarrow> fold (\<lambda>j row. row[j := g j]) [0..<c] row = map g [0..<c]"
proof (rule nth_equalityI)
  show "length (fold (\<lambda>j row. row[j := g j]) [0..<c] row) = length (map g [0..<c])"
    if "length row = c"
    using that by (simp add: length_fold_update)
next
  fix j
  assume "length row = c" and "j < length (fold (\<lambda>j row. row[j := g j]) [0..<c] row)"
  then have "j < length row" and "j < c"
    by (simp_all add: length_fold_update)
  then show "fold (\<lambda>j row. row[j := g j]) [0..<c] row ! j = map g [0..<c] ! j"
    by (simp add: fold_update_nth)
qed

lemma interp_NewErasureCoder:
  "interp (NewErasureCoder in_x out_x) =
     map (\<lambda>i. map (\<lambda>j. lagrange in_x i (out_x ! j)) [0..<length out_x]) [0..<length in_x]"
proof -
  let ?n = "length in_x" and ?m = "length out_x"
  define h where "h = (\<lambda>i. fold (\<lambda>j row. row[j := lagrange in_x i (out_x ! j)]) [0..<?m])"
  have step: "fold (\<lambda>j m. m[i := (m ! i)[j := lagrange in_x i (out_x ! j)]]) [0..<?m] m =
      m[i := h i (m ! i)]" if "i < length m" for i and m :: "byte list list"
    unfolding h_def using that by (rule fold_row_update)
  have loop: "fold (\<lambda>i. fold (\<lambda>j m. m[i := (m ! i)[j := lagrange in_x i (out_x ! j)]]) [0..<?m]) xs m =
      fold (\<lambda>i m. m[i := h i (m ! i)]) xs m" if "set xs \<subseteq> {..<length m}"
    for xs and m :: "byte list list"
    using that
  proof (induction xs arbitrary: m)
    case Nil
    show ?case by simp
  next
    case (Cons i xs)
    then have "i < length m" and "set xs \<subseteq> {..<length (m[i := h i (m ! i)])}"
      by simp_all
    with Cons.IH [of "m[i := h i (m ! i)]"] step [of i m] show ?case
      by simp
  qed
  have "set [0..<?n] \<subseteq> {..<length (makeMatrix ?n ?m)}"
    by (auto simp: makeMatrix_def)
  then have "interp (NewErasureCoder in_x out_x) =
      fold (\<lambda>i m. m[i := h i (m ! i)]) [0..<?n] (makeMatrix ?n ?m)"
    unfolding NewErasureCoder_def by (simp only: loop ErasureCoder.simps)
  also have "\<dots> = map (\<lambda>i. map (\<lambda>j. lagrange in_x i (out_x ! j)) [0..<?m]) [0..<?n]"
  proof (rule nth_equalityI)
    show "length (fold (\<lambda>i m. m[i := h i (m ! i)]) [0..<?n] (makeMatrix ?n ?m)) =
        length (map (\<lambda>i. map (\<lambda>j. lagrange in_x i (out_x ! j)) [0..<?m]) [0..<?n])"
      using length_fold_rows [of h "[0..<?n]" "makeMatrix ?n ?m"] by (simp add: makeMatrix_def)
  next
    fix k
    assume "k < length (fold (\<lambda>i m. m[i := h i (m ! i)]) [0..<?n] (makeMatrix ?n ?m))"
    then have k: "k < ?n"
      using length_fold_rows [of h "[0..<?n]" "makeMatrix ?n ?m"] by (simp add: makeMatrix_def)
    then have "fold (\<lambda>i m. m[i := h i (m ! i)]) [0..<?n] (makeMatrix ?n ?m) ! k =
        h k (makeMatrix ?n ?m ! k)"
      using fold_rows_nth [of k "makeMatrix ?n ?m" h ?n] by (simp add: makeMatrix_def)
    also have "\<dots> = map (\<lambda>j. lagrange in_x k (out_x ! j)) [0..<?m]"
      using k by (simp add: h_def makeMatrix_def fold_cells)
    finally show "fold (\<lambda>i m. m[i := h i (m ! i)]) [0..<?n] (makeMatrix ?n ?m) ! k =
        map (\<lambda>i. map (\<lambda>j. lagrange in_x i (out_x ! j)) [0..<?m]) [0..<?n] ! k"
      using k by simp
  qed
  finally show ?thesis .
qed

lemma interp_matrix_of:
  "interp (NewErasureCoder in_x out_x) =
     matrix_of (length in_x) (length out_x) (\<lambda>i j. lagrange in_x i (out_x ! j))"
  by (simp add: interp_NewErasureCoder matrix_of_def)

lemma Degree_NewErasureCoder: "Degree (NewErasureCoder in_x out_x) = length in_x"
  by (simp add: Degree_def interp_NewErasureCoder)

lemma interp_nth:
  "i < length in_x \<Longrightarrow>
     interp (NewErasureCoder in_x out_x) ! i = map (\<lambda>j. lagrange in_x i (out_x ! j)) [0..<length out_x]"
  by (simp add: interp_NewErasureCoder)

section \<open>What Code computes\<close>

lemma for_each_cong_body [fundef_cong]:
  "xs = ys \<Longrightarrow> (\<And>i t. i \<in> set ys \<Longrightarrow> body i t = body' i t) \<Longrightarrow> s = s'
     \<Longrightarrow> for_each xs body s = for_each ys body' s'"
proof -
  have "for_each ys body s = for_each ys body' s"
    if "\<And>i t. i \<in> set ys \<Longrightarrow> body i t = body' i t" for s
    using that by (induction ys arbitrary: s) (simp_all split: sum.splits)
  then show "xs = ys \<Longrightarrow> (\<And>i t. i \<in> set ys \<Longrightarrow> body i t = body' i t) \<Longrightarrow> s = s'
     \<Longrightarrow> for_each xs body s = for_each ys body' s'"
    by simp
qed

lemma fold_skip_mult:
  "fold (\<lambda>k r. if k = i then r else mult r (G k)) ks r0 =
     mult r0 (foldr mult (map G (filter (\<lambda>k. k \<noteq> i) ks)) 1)"
  by (induction ks arbitrary: r0) (simp_all add: mult_one_right mult_assoc)

lemma lagrange_eq_spec: "lagrange in_x i y = lagrange_spec in_x i y"
proof -
  have "enumerate 0 in_x = map (\<lambda>k. (k, in_x ! k)) [0..<length in_x]"
    by (intro nth_equalityI) (simp_all add: nth_enumerate_eq)
  then have "lagrange in_x i y =
      fold (\<lambda>k r. if k = i then r
                  else mult r (mult (y XOR in_x ! k) (inv_tab ! unat (in_x ! i XOR in_x ! k))))
        [0..<length in_x] 1"
    by (simp add: lagrange_def fold_map comp_def)
  then show ?thesis
    by (simp add: fold_skip_mult lagrange_spec_def mult_one_left)
qed

lemma Code_loops:
  assumes "length inp = n" and "list_all (\<lambda>row. length row = c) inp"
  shows "for_each [0..<n]
           (\<lambda>i. for_each [0..<length (inp ! i)]
             (\<lambda>j. for_each [0..<length (matrix_of n m L ! i)]
               (\<lambda>k out. xor_into out k j (mult (inp ! i ! j) (matrix_of n m L ! i ! k)))))
           (matrix_of m c F) =
         Inr (matrix_of m c
               (\<lambda>k j. F k j XOR xor_sum (map (\<lambda>i. mult (inp ! i ! j) (L i k)) [0..<n])))"
proof -
  have rows: "length (inp ! i) = c" if "i < n" for i
    using that assms by (simp add: list_all_length)
  have "for_each [0..<n]
           (\<lambda>i. for_each [0..<length (inp ! i)]
             (\<lambda>j. for_each [0..<length (matrix_of n m L ! i)]
               (\<lambda>k out. xor_into out k j (mult (inp ! i ! j) (matrix_of n m L ! i ! k)))))
           (matrix_of m c F) =
        for_each [0..<n]
           (\<lambda>i. for_each [0..<c]
             (\<lambda>j. for_each [0..<m] (\<lambda>k out. xor_into out k j (mult (inp ! i ! j) (L i k)))))
           (matrix_of m c F)"
    by (intro for_each_cong_body refl) (simp_all add: rows matrix_of_nth)
  also have "\<dots> = Inr (matrix_of m c
      (\<lambda>k j. fold (\<lambda>i a. a XOR mult (inp ! i ! j) (L i k)) [0..<n] (F k j)))"
    by (rule input_loop)
  finally show ?thesis
    by (simp add: fold_xor_sum)
qed

lemma Code_NewErasureCoder:
  assumes "in_x \<noteq> []" and "length inp = length in_x"
    and "list_all (\<lambda>row. length row = length (inp ! 0)) inp"
  shows "Code (NewErasureCoder in_x out_x) inp = Inr (code_spec in_x out_x inp)"
proof -
  let ?n = "length in_x" and ?m = "length out_x" and ?c = "length (inp ! 0)"
  let ?L = "\<lambda>i j. lagrange in_x i (out_x ! j)"
  have pos: "0 < ?n"
    using assms(1) by simp
  have M: "interp (NewErasureCoder in_x out_x) = matrix_of ?n ?m ?L"
    by (rule interp_matrix_of)
  have nonempty: "matrix_of ?n ?m ?L \<noteq> []"
    using pos length_matrix_of [of ?n ?m ?L] by auto
  have row0: "length (matrix_of ?n ?m ?L ! 0) = ?m"
    using pos by (simp add: matrix_of_nth)
  have "code_spec in_x out_x inp =
      matrix_of ?m ?c (\<lambda>k j. 0 XOR xor_sum (map (\<lambda>i. mult (inp ! i ! j) (?L i k)) [0..<?n]))"
    by (simp add: code_spec_def matrix_of_def lagrange_eq_spec)
  with Code_loops [OF assms(2,3), of ?m ?L "\<lambda>k j. 0"] show ?thesis
    using assms(2,3) nonempty row0
    by (simp add: Code_def Degree_def M length_matrix_of makeMatrix_matrix_of)
qed

lemma Code_no_rows: "Code (NewErasureCoder [] out_x) [] = Inl RuntimeIndexError"
  by (simp add: Code_def Degree_def interp_NewErasureCoder)

lemma Code_wrong_row_count:
  "length inp \<noteq> Degree p \<Longrightarrow> Code p inp = Inl ShapeMismatch"
  by (simp add: Code_def)

lemma Code_ragged:
  "length inp = Degree p \<Longrightarrow> \<not> list_all (\<lambda>row. length row = length (inp ! 0)) inp
     \<Longrightarrow> Code p inp = Inl RaggedInput"
  by (simp add: Code_def)

section \<open>What Update does\<close>

lemma Update_loops:
  assumes "length out = m" and "list_all (\<lambda>row. length row = c) out" and "length d = c"
    and "i < n"
  shows "for_each [0..<length d]
           (\<lambda>j. for_each [0..<length (matrix_of n m L ! i)]
             (\<lambda>k out. xor_into out k j (mult (d ! j) (matrix_of n m L ! i ! k))))
           out =
         Inr (matrix_of m c (\<lambda>k j. out ! k ! j XOR mult (d ! j) (L i k)))"
proof -
  have "for_each [0..<length d]
           (\<lambda>j. for_each [0..<length (matrix_of n m L ! i)]
             (\<lambda>k out. xor_into out k j (mult (d ! j) (matrix_of n m L ! i ! k))))
           (matrix_of m c (\<lambda>k j. out ! k ! j)) =
        for_each [0..<c]
           (\<lambda>j. for_each [0..<m] (\<lambda>k out. xor_into out k j (mult (d ! j) (L i k))))
           (matrix_of m c (\<lambda>k j. out ! k ! j))"
    using assms(3,4) by (intro for_each_cong_body refl) (simp_all add: matrix_of_nth)
  also have "\<dots> = Inr (matrix_of m c
      (\<lambda>k j. if j < c \<and> k < m then out ! k ! j XOR mult (d ! j) (L i k) else out ! k ! j))"
    by (rule column_loop) simp
  also have "matrix_of m c
      (\<lambda>k j. if j < c \<and> k < m then out ! k ! j XOR mult (d ! j) (L i k) else out ! k ! j) =
      matrix_of m c (\<lambda>k j. out ! k ! j XOR mult (d ! j) (L i k))"
    by (rule matrix_of_cong) simp
  finally show ?thesis
    using matrix_of_entries [OF assms(1,2)] by simp
qed

lemma row_loop_fault:
  "for_each ks (\<lambda>k out. xor_into out k j (g k)) t = Inl (e, u) \<Longrightarrow> e = RuntimeIndexError"
  by (induction ks arbitrary: t) (auto simp: xor_into_def split: sum.splits if_splits)

lemma column_loop_fault:
  "for_each js (\<lambda>j. for_each ks (\<lambda>k out. xor_into out k j (g j k))) t = Inl (e, u)
     \<Longrightarrow> e = RuntimeIndexError"
proof (induction js arbitrary: t)
  case Nil
  then show ?case by simp
next
  case (Cons j js)
  then show ?case
    using row_loop_fault [of ks j "g j" t e u] by (auto split: sum.splits)
qed

text \<open>The index check of \<open>Update\<close> compares bytes: the degree is cut to its low 8 bits.\<close>

lemma Update_index_check:
  "Update p idx d out = Inl (IndexOutOfRange, out) \<longleftrightarrow> unat idx \<ge> length (interp p) mod 256"
proof -
  have "idx \<ge> (of_nat (length (interp p)) :: byte) \<longleftrightarrow> unat idx \<ge> length (interp p) mod 256"
    by (simp add: word_le_nat_alt unat_of_nat)
  moreover have "for_each [0..<length d]
      (\<lambda>j. for_each [0..<length (interp p ! unat idx)]
        (\<lambda>k out. xor_into out k j (mult (d ! j) (interp p ! unat idx ! k)))) out
      \<noteq> Inl (IndexOutOfRange, out)"
    using column_loop_fault [of "[0..<length d]" "[0..<length (interp p ! unat idx)]"
        "\<lambda>j k. mult (d ! j) (interp p ! unat idx ! k)" out IndexOutOfRange out]
    by auto
  ultimately show ?thesis
    by (simp add: Update_def)
qed

lemma Update_degree_multiple_of_256:
  "length (interp p) mod 256 = 0 \<Longrightarrow> Update p idx d out = Inl (IndexOutOfRange, out)"
  by (simp add: Update_index_check)

lemma Update_NewErasureCoder:
  assumes "unat idx < length in_x mod 256" and "length out = length out_x"
    and "list_all (\<lambda>row. length d = length row) out"
  shows "Update (NewErasureCoder in_x out_x) idx d out =
           Inr (matrix_of (length out_x) (length d)
                  (\<lambda>k j. out ! k ! j XOR mult (d ! j) (lagrange in_x (unat idx) (out_x ! k))))"
proof -
  let ?n = "length in_x" and ?m = "length out_x"
  let ?L = "\<lambda>i j. lagrange in_x i (out_x ! j)"
  have M: "interp (NewErasureCoder in_x out_x) = matrix_of ?n ?m ?L"
    by (rule interp_matrix_of)
  have idx: "unat idx < ?n"
    using assms(1) by (meson less_le_trans mod_less_eq_dividend)
  then have "0 < ?n"
    by (cases in_x) simp_all
  then have row0: "length (matrix_of ?n ?m ?L ! 0) = ?m"
    by (simp add: matrix_of_nth)
  have not_ge: "\<not> idx \<ge> (of_nat ?n :: byte)"
    using assms(1) by (simp add: word_le_nat_alt unat_of_nat)
  have rows: "list_all (\<lambda>row. length row = length d) out"
    using assms(3) by (simp add: list_all_iff)
  show ?thesis
    using Update_loops [OF assms(2) rows refl idx, of ?L] not_ge assms(2,3)
    by (simp add: Update_def M length_matrix_of row0)
qed

section \<open>Polynomials over a field and Lagrange interpolation\<close>

lemma peval_padd: "peval (padd p q) x = peval p x + peval q x"
  by (induction p q rule: padd.induct) (simp_all add: algebra_simps)

lemma length_padd: "length (padd p q) = max (length p) (length q)"
  by (induction p q rule: padd.induct) simp_all

lemma peval_scale: "peval (map ((*) c) p) x = c * peval p x"
  by (induction p) (simp_all add: algebra_simps)

lemma poly_fun_zero: "poly_fun n (\<lambda>x. 0)"
  unfolding poly_fun_def by (intro exI [of _ "[]"]) auto

lemma poly_fun_mono:
  assumes "poly_fun n f" and "n \<le> m"
  shows "poly_fun m f"
proof -
  from assms(1) obtain p where "length p \<le> n" "f = peval p"
    unfolding poly_fun_def by blast
  with assms(2) have "length p \<le> m \<and> f = peval p"
    by simp
  then show ?thesis
    unfolding poly_fun_def by blast
qed

lemma poly_fun_add:
  assumes "poly_fun n f" and "poly_fun n g"
  shows "poly_fun n (\<lambda>x. f x + g x)"
proof -
  from assms obtain p q where "length p \<le> n" "f = peval p" "length q \<le> n" "g = peval q"
    unfolding poly_fun_def by blast
  then have "length (padd p q) \<le> n" and "(\<lambda>x. f x + g x) = peval (padd p q)"
    by (simp_all add: length_padd peval_padd fun_eq_iff)
  then show ?thesis
    unfolding poly_fun_def by blast
qed

lemma poly_fun_scale:
  assumes "poly_fun n f"
  shows "poly_fun n (\<lambda>x. c * f x)"
proof -
  from assms obtain p where "length p \<le> n" "f = peval p"
    unfolding poly_fun_def by blast
  then have "length (map ((*) c) p) \<le> n" and "(\<lambda>x. c * f x) = peval (map ((*) c) p)"
    by (simp_all add: peval_scale fun_eq_iff)
  then show ?thesis
    unfolding poly_fun_def by blast
qed

lemma poly_fun_times_x:
  assumes "poly_fun n f"
  shows "poly_fun (Suc n) (\<lambda>x. x * f x)"
proof -
  from assms obtain p where "length p \<le> n" "f = peval p"
    unfolding poly_fun_def by blast
  then have "length (0 # p) \<le> Suc n" and "(\<lambda>x. x * f x) = peval (0 # p)"
    by (simp_all add: fun_eq_iff)
  then show ?thesis
    unfolding poly_fun_def by blast
qed

lemma poly_fun_linear_factor:
  assumes "poly_fun n f"
  shows "poly_fun (Suc n) (\<lambda>x. ((x - a) * c) * f x)"
proof -
  have "poly_fun (Suc n) (\<lambda>x. c * (x * f x))"
    by (intro poly_fun_scale poly_fun_times_x assms)
  moreover have "poly_fun (Suc n) (\<lambda>x. (- a * c) * f x)"
    by (intro poly_fun_scale poly_fun_mono [OF assms]) simp
  ultimately have "poly_fun (Suc n) (\<lambda>x. c * (x * f x) + (- a * c) * f x)"
    by (rule poly_fun_add)
  moreover have "(\<lambda>x. c * (x * f x) + (- a * c) * f x) = (\<lambda>x. ((x - a) * c) * f x)"
    by (simp add: fun_eq_iff algebra_simps)
  ultimately show ?thesis
    by simp
qed

lemma poly_fun_sum:
  assumes "finite S" and "\<And>i. i \<in> S \<Longrightarrow> poly_fun n (f i)"
  shows "poly_fun n (\<lambda>x. \<Sum>i\<in>S. f i x)"
  using assms
proof (induction S rule: finite_induct)
  case empty
  show ?case by (simp add: poly_fun_zero)
next
  case (insert i S)
  then have "poly_fun n (\<lambda>x. f i x + (\<Sum>i\<in>S. f i x))"
    by (intro poly_fun_add) simp_all
  with insert show ?case by simp
qed

lemma poly_fun_prod_linear:
  assumes "finite S"
  shows "poly_fun (Suc (card S)) (\<lambda>x. \<Prod>k\<in>S. (x - a k) * c k)"
  using assms
proof (induction S rule: finite_induct)
  case empty
  show ?case
    unfolding poly_fun_def by (intro exI [of _ "[1]"]) (simp add: fun_eq_iff)
next
  case (insert k S)
  have "poly_fun (Suc (Suc (card S))) (\<lambda>x. ((x - a k) * c k) * (\<Prod>k\<in>S. (x - a k) * c k))"
    by (rule poly_fun_linear_factor [OF insert.IH])
  with insert show ?case by simp
qed

lemma synthetic_division:
  "cs \<noteq> [] \<Longrightarrow> \<exists>q. length q = length cs - 1 \<and> (\<forall>x. peval cs x = (x - r) * peval q x + peval cs r)"
proof (induction cs)
  case Nil
  then show ?case by simp
next
  case (Cons c cs)
  show ?case
  proof (cases "cs = []")
    case True
    then show ?thesis
      by (intro exI [of _ "[]"]) simp
  next
    case False
    with Cons.IH obtain q where q: "length q = length cs - 1"
      "\<And>x. peval cs x = (x - r) * peval q x + peval cs r"
      by blast
    have "peval (c # cs) x = (x - r) * peval (peval cs r # q) x + peval (c # cs) r" for x
    proof -
      have "peval (c # cs) x = c + x * ((x - r) * peval q x + peval cs r)"
        using q(2) [of x] by simp
      also have "\<dots> = (x - r) * peval (peval cs r # q) x + peval (c # cs) r"
        by (simp add: algebra_simps)
      finally show ?thesis .
    qed
    moreover have "length (peval cs r # q) = length (c # cs) - 1"
      using q(1) False by (cases cs) simp_all
    ultimately show ?thesis
      by blast
  qed
qed

lemma roots_force_zero:
  "distinct rs \<Longrightarrow> length cs \<le> length rs \<Longrightarrow> (\<And>r. r \<in> set rs \<Longrightarrow> peval cs r = 0)
     \<Longrightarrow> peval cs x = 0"
proof (induction rs arbitrary: cs x)
  case Nil
  then show ?case by simp
next
  case (Cons r rs)
  show ?case
  proof (cases "cs = []")
    case True
    then show ?thesis by simp
  next
    case False
    then obtain q where q: "length q = length cs - 1"
      "\<And>x. peval cs x = (x - r) * peval q x + peval cs r"
      using synthetic_division [of cs r] by blast
    have root: "peval cs r = 0"
      using Cons.prems(3) by simp
    have "peval q s = 0" if "s \<in> set rs" for s
    proof -
      have "s \<noteq> r"
        using that Cons.prems(1) by auto
      moreover have "(s - r) * peval q s = 0"
        using q(2) [of s] root Cons.prems(3) [of s] that by simp
      ultimately show ?thesis by simp
    qed
    moreover have "length q \<le> length rs" and "distinct rs"
      using q(1) Cons.prems(1,2) by simp_all
    ultimately have "peval q x = 0"
      using Cons.IH [of q x] by blast
    with q(2) [of x] root show ?thesis by simp
  qed
qed

lemma lag_at_node:
  assumes "distinct xs" and "i < length xs" and "j < length xs"
  shows "lag xs i (xs ! j) = (if i = j then 1 else 0)"
proof (cases "i = j")
  case True
  have "(xs ! i - xs ! k) * inverse (xs ! i - xs ! k) = 1" if "k \<in> {..<length xs} - {i}" for k
  proof -
    have "xs ! i \<noteq> xs ! k"
      using that assms(1,2) by (auto simp: nth_eq_iff_index_eq)
    then show ?thesis by simp
  qed
  with True show ?thesis
    by (simp add: lag_def)
next
  case False
  then have "j \<in> {..<length xs} - {i}" and "(xs ! j - xs ! j) * inverse (xs ! i - xs ! j) = 0"
    using assms(3) by simp_all
  then have "(\<Prod>k\<in>{..<length xs} - {i}. (xs ! j - xs ! k) * inverse (xs ! i - xs ! k)) = 0"
    by (intro prod_zero) auto
  with False show ?thesis
    by (simp add: lag_def)
qed

lemma lag_collision:
  assumes "i < length xs" and "k < length xs" and "i \<noteq> k" and "xs ! i = xs ! k"
  shows "lag xs i y = 0"
proof -
  have "k \<in> {..<length xs} - {i}" and "(y - xs ! k) * inverse (xs ! i - xs ! k) = 0"
    using assms by simp_all
  then have "(\<Prod>k\<in>{..<length xs} - {i}. (y - xs ! k) * inverse (xs ! i - xs ! k)) = 0"
    by (intro prod_zero) auto
  then show ?thesis
    by (simp add: lag_def)
qed

lemma poly_fun_lag:
  assumes "i < length xs"
  shows "poly_fun (length xs) (lag xs i)"
proof -
  have "Suc (card ({..<length xs} - {i})) = length xs"
    using assms by simp
  moreover have "poly_fun (Suc (card ({..<length xs} - {i})))
      (\<lambda>y. \<Prod>k\<in>{..<length xs} - {i}. (y - xs ! k) * inverse (xs ! i - xs ! k))"
    by (rule poly_fun_prod_linear) simp
  ultimately have "poly_fun (length xs)
      (\<lambda>y. \<Prod>k\<in>{..<length xs} - {i}. (y - xs ! k) * inverse (xs ! i - xs ! k))"
    by (simp only:)
  then show ?thesis
    by (simp add: lag_def [abs_def])
qed

text \<open>Interpolation through \<open>n\<close> distinct nodes gives back every polynomial with \<open>n\<close> coefficients.\<close>

lemma interpolation_exact:
  assumes "distinct xs" and "poly_fun (length xs) q"
  shows "(\<Sum>i<length xs. lag xs i y * q (xs ! i)) = q y"
proof -
  let ?n = "length xs"
  have "poly_fun ?n (\<lambda>y. \<Sum>i\<in>{..<?n}. q (xs ! i) * lag xs i y)"
    by (intro poly_fun_sum poly_fun_scale poly_fun_lag) simp_all
  moreover have "poly_fun ?n (\<lambda>y. (- 1) * q y)"
    by (intro poly_fun_scale assms(2))
  ultimately have "poly_fun ?n (\<lambda>y. (\<Sum>i\<in>{..<?n}. q (xs ! i) * lag xs i y) + (- 1) * q y)"
    by (rule poly_fun_add)
  then obtain cs where cs: "length cs \<le> ?n"
    "\<And>y. (\<Sum>i\<in>{..<?n}. q (xs ! i) * lag xs i y) + (- 1) * q y = peval cs y"
    unfolding poly_fun_def by (auto simp: fun_eq_iff)
  have "peval cs r = 0" if "r \<in> set xs" for r
  proof -
    from that obtain j where j: "j < ?n" "r = xs ! j"
      by (auto simp: in_set_conv_nth)
    have "(\<Sum>i\<in>{..<?n}. q (xs ! i) * lag xs i (xs ! j)) =
        (\<Sum>i\<in>{..<?n}. if i = j then q (xs ! j) else 0)"
      using j(1) assms(1) by (intro sum.cong refl) (simp add: lag_at_node)
    also have "\<dots> = q (xs ! j)"
      using j(1) by simp
    finally show ?thesis
      using cs(2) [of r] j(2) by simp
  qed
  then have "peval cs y = 0"
    using roots_force_zero [OF assms(1) cs(1)] by blast
  with cs(2) [of y] show ?thesis
    by (simp add: mult.commute)
qed

text \<open>
  Values of a polynomial with \<open>n\<close> coefficients, given as an interpolation through the
  nodes \<open>as\<close>, are interpolated again through any \<open>n\<close> distinct nodes \<open>bs\<close>.
\<close>

lemma reinterpolation:
  assumes "distinct bs" and "length bs = length as"
  shows "(\<Sum>i'<length bs. lag bs i' y * (\<Sum>i<length as. lag as i (bs ! i') * d i)) =
           (\<Sum>i<length as. lag as i y * d i)"
proof -
  have "poly_fun (length as) (\<lambda>t. \<Sum>i\<in>{..<length as}. d i * lag as i t)"
    by (intro poly_fun_sum poly_fun_scale poly_fun_lag) simp_all
  then have "poly_fun (length bs) (\<lambda>t. \<Sum>i<length as. lag as i t * d i)"
    using assms(2) by (simp add: mult.commute)
  from interpolation_exact [OF assms(1) this] show ?thesis .
qed

section \<open>The bytes under XOR and mult are a field\<close>

typedef gf = "UNIV :: byte set"
  by simp

setup_lifting type_definition_gf

instantiation gf :: field
begin

lift_definition zero_gf :: gf is "0 :: byte" .

lift_definition one_gf :: gf is "1 :: byte" .

lift_definition plus_gf :: "gf \<Rightarrow> gf \<Rightarrow> gf" is "\<lambda>a b :: byte. a XOR b" .

lift_definition minus_gf :: "gf \<Rightarrow> gf \<Rightarrow> gf" is "\<lambda>a b :: byte. a XOR b" .

lift_definition uminus_gf :: "gf \<Rightarrow> gf" is "\<lambda>a :: byte. a" .

lift_definition times_gf :: "gf \<Rightarrow> gf \<Rightarrow> gf" is mult .

lift_definition inverse_gf :: "gf \<Rightarrow> gf" is "\<lambda>a :: byte. inv_tab ! unat a" .

lift_definition divide_gf :: "gf \<Rightarrow> gf \<Rightarrow> gf" is "\<lambda>a b :: byte. mult a (inv_tab ! unat b)" .

instance
proof
  fix a b c :: gf
  show "a + b + c = a + (b + c)"
    by transfer (simp add: ac_simps)
  show "a + b = b + a"
    by transfer (simp add: ac_simps)
  show "0 + a = a"
    by transfer simp
  show "- a + a = 0"
    by transfer simp
  show "a - b = a + - b"
    by transfer simp
  show "a * b * c = a * (b * c)"
    by transfer (rule mult_assoc)
  show "a * b = b * a"
    by transfer (rule mult_commute)
  show "1 * a = a"
    by transfer (rule mult_one_left)
  show "(a + b) * c = a * c + b * c"
    by transfer (rule mult_xor_left)
  show "(0 :: gf) \<noteq> 1"
    by transfer simp
  show "a \<noteq> 0 \<Longrightarrow> inverse a * a = 1"
    by transfer (simp add: mult_commute [of "inv_tab ! unat _"] mult_inv_tab)
  show "a div b = a * inverse b"
    by transfer simp
  show "inverse (0 :: gf) = 0"
    by transfer (simp add: inv_tab_zero)
qed

end

lemma Abs_gf_inject': "Abs_gf a = Abs_gf b \<longleftrightarrow> a = b"
  by (simp add: Abs_gf_inject)

lemma inj_Abs_gf: "inj Abs_gf"
  by (rule injI) (simp add: Abs_gf_inject')

lemma Abs_gf_zero: "Abs_gf 0 = 0"
  by (simp add: zero_gf_def)

lemma Abs_gf_one: "Abs_gf 1 = 1"
  by (simp add: one_gf_def)

lemma Abs_gf_xor: "Abs_gf (a XOR b) = Abs_gf a + Abs_gf b"
  by (simp add: plus_gf_def Abs_gf_inverse)

lemma Abs_gf_xor_minus: "Abs_gf (a XOR b) = Abs_gf a - Abs_gf b"
  by (simp add: minus_gf_def Abs_gf_inverse)

lemma Abs_gf_mult: "Abs_gf (mult a b) = Abs_gf a * Abs_gf b"
  by (simp add: times_gf_def Abs_gf_inverse)

lemma Abs_gf_inv: "Abs_gf (inv_tab ! unat a) = inverse (Abs_gf a)"
  by (simp add: inverse_gf_def Abs_gf_inverse)

lemma Abs_gf_xor_sum: "Abs_gf (xor_sum (map f xs)) = (\<Sum>x\<leftarrow>xs. Abs_gf (f x))"
  by (induction xs) (simp_all add: xor_sum_def Abs_gf_zero Abs_gf_xor)

lemma Abs_gf_xor_sum_upt: "Abs_gf (xor_sum (map f [0..<n])) = (\<Sum>i<n. Abs_gf (f i))"
  by (simp add: Abs_gf_xor_sum interv_sum_list_conv_sum_set_nat atLeast0LessThan)

lemma Abs_gf_foldr_mult: "Abs_gf (foldr mult (map f xs) 1) = (\<Prod>x\<leftarrow>xs. Abs_gf (f x))"
  by (induction xs) (simp_all add: Abs_gf_one Abs_gf_mult)

lemma Abs_gf_lagrange_spec:
  assumes "i < length xs"
  shows "Abs_gf (lagrange_spec xs i y) = lag (map Abs_gf xs) i (Abs_gf y)"
proof -
  let ?ks = "filter (\<lambda>k. k \<noteq> i) [0..<length xs]"
  have set_ks: "set ?ks = {..<length xs} - {i}"
    by auto
  have "Abs_gf (lagrange_spec xs i y) =
      (\<Prod>k\<leftarrow>?ks. (Abs_gf y - Abs_gf (xs ! k)) * inverse (Abs_gf (xs ! i) - Abs_gf (xs ! k)))"
    by (simp add: lagrange_spec_def Abs_gf_foldr_mult Abs_gf_mult Abs_gf_inv Abs_gf_xor_minus)
  also have "\<dots> = (\<Prod>k\<in>set ?ks. (Abs_gf y - Abs_gf (xs ! k)) * inverse (Abs_gf (xs ! i) - Abs_gf (xs ! k)))"
    by (rule prod.distinct_set_conv_list [symmetric]) simp
  also have "\<dots> = lag (map Abs_gf xs) i (Abs_gf y)"
    unfolding set_ks lag_def using assms by (intro prod.cong) simp_all
  finally show ?thesis .
qed

text \<open>
  Interpolating through the distinct nodes \<open>bs\<close> the values that the interpolation through
  \<open>as\<close> takes there gives the values of the interpolation through \<open>as\<close> everywhere.
\<close>

lemma recode_bytes:
  assumes "distinct bs" and "length bs = length as"
  shows "xor_sum (map (\<lambda>i'. mult (xor_sum (map (\<lambda>i. mult (d i) (lagrange_spec as i (bs ! i')))
                                          [0..<length as]))
                            (lagrange_spec bs i' y))
                  [0..<length bs]) =
         xor_sum (map (\<lambda>i. mult (d i) (lagrange_spec as i y)) [0..<length as])"
proof -
  let ?A = "map Abs_gf as" and ?B = "map Abs_gf bs"
  have dist: "distinct ?B"
    using assms(1) by (simp add: distinct_map inj_Abs_gf [THEN inj_on_subset])
  have "Abs_gf (xor_sum (map (\<lambda>i'. mult (xor_sum (map (\<lambda>i. mult (d i) (lagrange_spec as i (bs ! i')))
                                          [0..<length as]))
                            (lagrange_spec bs i' y))
                  [0..<length bs])) =
      (\<Sum>i'<length ?B. lag ?B i' (Abs_gf y) *
         (\<Sum>i<length ?A. lag ?A i (?B ! i') * Abs_gf (d i)))"
    by (simp add: Abs_gf_xor_sum_upt Abs_gf_mult Abs_gf_lagrange_spec mult.commute)
  also have "\<dots> = (\<Sum>i<length ?A. lag ?A i (Abs_gf y) * Abs_gf (d i))"
    using assms(2) by (intro reinterpolation [OF dist]) simp
  also have "\<dots> = Abs_gf (xor_sum (map (\<lambda>i. mult (d i) (lagrange_spec as i y)) [0..<length as]))"
    by (simp add: Abs_gf_xor_sum_upt Abs_gf_mult Abs_gf_lagrange_spec mult.commute)
  finally show ?thesis
    by (simp only: Abs_gf_inject')
qed

section \<open>The coder on its own nodes, on colliding nodes and on recoded rows\<close>

lemma length_bytes_from: "length (bytes_from n a) = n"
  by (induction n arbitrary: a) simp_all

lemma lagrange_spec_at_node:
  assumes "distinct in_x" and "i < length in_x" and "k < length in_x"
  shows "lagrange_spec in_x i (in_x ! k) = (if i = k then 1 else 0)"
proof -
  have "Abs_gf (lagrange_spec in_x i (in_x ! k)) = lag (map Abs_gf in_x) i (map Abs_gf in_x ! k)"
    using assms(2,3) by (simp add: Abs_gf_lagrange_spec)
  also have "\<dots> = (if i = k then 1 else 0)"
    using assms by (intro lag_at_node) (simp_all add: distinct_map inj_Abs_gf [THEN inj_on_subset])
  also have "\<dots> = Abs_gf (if i = k then 1 else 0)"
    by (simp add: Abs_gf_one Abs_gf_zero)
  finally show ?thesis
    by (simp only: Abs_gf_inject')
qed

lemma lagrange_spec_collision:
  assumes "i < length in_x" and "k < length in_x" and "i \<noteq> k" and "in_x ! i = in_x ! k"
  shows "lagrange_spec in_x i y = 0"
proof -
  have "Abs_gf (lagrange_spec in_x i y) = lag (map Abs_gf in_x) i (Abs_gf y)"
    using assms(1) by (simp add: Abs_gf_lagrange_spec)
  also have "\<dots> = 0"
    using assms by (intro lag_collision [of i _ k]) simp_all
  finally show ?thesis
    by (simp add: Abs_gf_zero [symmetric] Abs_gf_inject' del: Abs_gf_zero)
qed

lemma xor_sum_delta:
  "k < n \<Longrightarrow> xor_sum (map (\<lambda>i. if i = k then f i else 0) [0..<n]) = f k"
proof (induction n)
  case 0
  then show ?case by simp
next
  case (Suc n)
  have zero: "xor_sum (map (\<lambda>i. if i = k then f i else 0) [0..<n]) = 0" if "n \<le> k"
    using that by (induction n) (simp_all add: xor_sum_def)
  have snoc: "xor_sum (xs @ [x]) = xor_sum xs XOR x" for xs x
    by (induction xs) (simp_all add: xor_sum_def ac_simps)
  show ?case
  proof (cases "k = n")
    case True
    with zero [of ] show ?thesis
      by (simp add: snoc)
  next
    case False
    with Suc show ?thesis
      by (simp add: snoc)
  qed
qed

lemma xor_sum_update:
  "k < n \<Longrightarrow>
     xor_sum (map (\<lambda>i. if i = k then f i XOR e else f i) [0..<n]) = xor_sum (map f [0..<n]) XOR e"
proof (induction n)
  case 0
  then show ?case by simp
next
  case (Suc n)
  have same: "xor_sum (map (\<lambda>i. if i = k then f i XOR e else f i) [0..<n]) = xor_sum (map f [0..<n])"
    if "n \<le> k"
  proof -
    have "map (\<lambda>i. if i = k then f i XOR e else f i) [0..<n] = map f [0..<n]"
      using that by (intro map_cong refl) auto
    then show ?thesis by (simp only:)
  qed
  have snoc: "xor_sum (xs @ [x]) = xor_sum xs XOR x" for xs x
    by (induction xs) (simp_all add: xor_sum_def ac_simps)
  show ?case
  proof (cases "k = n")
    case True
    with same show ?thesis
      by (simp add: snoc ac_simps)
  next
    case False
    with Suc show ?thesis
      by (simp add: snoc ac_simps)
  qed
qed

lemma length_code_spec: "length (code_spec in_x out_x inp) = length out_x"
  by (simp add: code_spec_def)

lemma code_spec_nth:
  "k < length out_x \<Longrightarrow>
     code_spec in_x out_x inp ! k =
       map (\<lambda>j. xor_sum (map (\<lambda>i. mult (inp ! i ! j) (lagrange_spec in_x i (out_x ! k)))
                           [0..<length in_x]))
         [0..<length (inp ! 0)]"
  by (simp add: code_spec_def)

lemma code_spec_rows:
  "list_all (\<lambda>row. length row = length (inp ! 0)) (code_spec in_x out_x inp)"
  by (simp add: code_spec_def list_all_iff)

lemma code_spec_systematic:
  assumes "distinct in_x" and "take (length in_x) out_x = in_x" and "length inp = length in_x"
    and "list_all (\<lambda>row. length row = length (inp ! 0)) inp"
  shows "take (length in_x) (code_spec in_x out_x inp) = inp"
proof (rule nth_equalityI)
  let ?n = "length in_x"
  have "length (take ?n out_x) = ?n"
    by (rule arg_cong [where f = length, OF assms(2)])
  then have len: "?n \<le> length out_x"
    by simp
  show "length (take ?n (code_spec in_x out_x inp)) = length inp"
    using len assms(3) by (simp add: length_code_spec)
  fix k
  assume "k < length (take ?n (code_spec in_x out_x inp))"
  then have k: "k < ?n"
    by simp
  then have out_k: "out_x ! k = in_x ! k"
    using assms(2) by (metis nth_take)
  have row: "length (inp ! k) = length (inp ! 0)"
    using assms(3,4) k by (simp add: list_all_length)
  have "xor_sum (map (\<lambda>i. mult (inp ! i ! j) (lagrange_spec in_x i (in_x ! k))) [0..<?n]) =
      inp ! k ! j" for j
  proof -
    have "map (\<lambda>i. mult (inp ! i ! j) (lagrange_spec in_x i (in_x ! k))) [0..<?n] =
        map (\<lambda>i. if i = k then inp ! i ! j else 0) [0..<?n]"
      using assms(1) k
      by (intro map_cong refl) (simp add: lagrange_spec_at_node mult_one_right mult_zero_right)
    then show ?thesis
      using xor_sum_delta [OF k, of "\<lambda>i. inp ! i ! j"] by (simp only:)
  qed
  then have "code_spec in_x out_x inp ! k = map ((!) (inp ! k)) [0..<length (inp ! 0)]"
    using k len by (simp add: code_spec_nth out_k)
  also have "\<dots> = inp ! k"
    using map_nth [of "inp ! k"] row by simp
  finally show "take ?n (code_spec in_x out_x inp) ! k = inp ! k"
    using k by simp
qed

lemma code_spec_recode:
  assumes "length sel = length as" and "set sel \<subseteq> {..<length xs}"
    and "distinct (map ((!) xs) sel)" and "set rest \<subseteq> {..<length xs}" and "as \<noteq> []"
  shows "code_spec (map ((!) xs) sel) (map ((!) xs) rest) (map ((!) (code_spec as xs rows)) sel) =
           map ((!) (code_spec as xs rows)) rest"
proof (rule nth_equalityI)
  let ?bs = "map ((!) xs) sel" and ?ys = "map ((!) xs) rest" and ?out = "code_spec as xs rows"
  let ?inB = "map ((!) ?out) sel" and ?c = "length (rows ! 0)"
  show "length (code_spec ?bs ?ys ?inB) = length (map ((!) ?out) rest)"
    by (simp add: length_code_spec)
  fix t
  assume "t < length (code_spec ?bs ?ys ?inB)"
  then have t: "t < length rest"
    by (simp add: length_code_spec)
  then have rt: "rest ! t < length xs"
    using assms(4) by (metis lessThan_iff nth_mem subsetD)
  have sel: "sel ! i' < length xs" if "i' < length sel" for i'
    using that assms(2) by (metis lessThan_iff nth_mem subsetD)
  have "0 < length sel"
    using assms(1,5) by simp
  then have c: "length (?inB ! 0) = ?c"
    using sel [of 0] by (simp add: code_spec_nth)
  have entry: "?inB ! i' ! j =
      xor_sum (map (\<lambda>i. mult (rows ! i ! j) (lagrange_spec as i (?bs ! i'))) [0..<length as])"
    if "i' < length ?bs" and "j < ?c" for i' j
    using that sel [of i'] by (simp add: code_spec_nth)
  have "xor_sum (map (\<lambda>i'. mult (?inB ! i' ! j) (lagrange_spec ?bs i' (?ys ! t))) [0..<length ?bs]) =
      xor_sum (map (\<lambda>i. mult (rows ! i ! j) (lagrange_spec as i (xs ! (rest ! t)))) [0..<length as])"
    if "j < ?c" for j
  proof -
    have "map (\<lambda>i'. mult (?inB ! i' ! j) (lagrange_spec ?bs i' (?ys ! t))) [0..<length ?bs] =
        map (\<lambda>i'. mult (xor_sum (map (\<lambda>i. mult (rows ! i ! j) (lagrange_spec as i (?bs ! i')))
                                   [0..<length as]))
                    (lagrange_spec ?bs i' (?ys ! t))) [0..<length ?bs]"
      using that by (intro map_cong refl) (simp only: entry set_upt atLeastLessThan_iff)
    moreover have "?ys ! t = xs ! (rest ! t)" and "length ?bs = length as"
      using t assms(1) by simp_all
    ultimately show ?thesis
      using recode_bytes [OF assms(3), of as "\<lambda>i. rows ! i ! j" "?ys ! t"]
      by (simp only:)
  qed
  then have "code_spec ?bs ?ys ?inB ! t =
      map (\<lambda>j. xor_sum (map (\<lambda>i. mult (rows ! i ! j) (lagrange_spec as i (xs ! (rest ! t))))
                          [0..<length as])) [0..<?c]"
    using t by (simp add: code_spec_nth [of t ?ys] c)
  also have "\<dots> = ?out ! (rest ! t)"
    using rt by (simp add: code_spec_nth)
  finally show "code_spec ?bs ?ys ?inB ! t = map ((!) ?out) rest ! t"
    using t by simp
qed

lemma Code_recode:
  assumes "length sel = length as" and "set sel \<subseteq> {..<length xs}"
    and "distinct (map ((!) xs) sel)" and "set rest \<subseteq> {..<length xs}" and "as \<noteq> []"
  shows "Code (NewErasureCoder (map ((!) xs) sel) (map ((!) xs) rest))
           (map ((!) (code_spec as xs rows)) sel) =
         Inr (map ((!) (code_spec as xs rows)) rest)"
proof -
  let ?out = "code_spec as xs rows" and ?c = "length (rows ! 0)"
  have sel: "i < length xs" if "i \<in> set sel" for i
    using that assms(2) by auto
  have "length (?out ! i) = ?c" if "i \<in> set sel" for i
    using sel [OF that] by (simp add: code_spec_nth)
  moreover have "sel \<noteq> []"
    using assms(1,5) by auto
  then have "length (map ((!) ?out) sel ! 0) = ?c"
    using sel [of "sel ! 0"] by (simp add: code_spec_nth)
  ultimately have shape: "list_all (\<lambda>row. length row = length (map ((!) ?out) sel ! 0))
      (map ((!) ?out) sel)"
    by (simp add: list_all_iff)
  have "map ((!) xs) sel \<noteq> []"
    using \<open>sel \<noteq> []\<close> by simp
  from Code_NewErasureCoder [OF this _ shape, of "map ((!) xs) rest"]
  show ?thesis
    by (simp add: code_spec_recode [OF assms])
qed

lemma Code_Update_linear:
  assumes "in_x \<noteq> []" and "length in_x < 256" and "length inp = length in_x"
    and "list_all (\<lambda>row. length row = length (inp ! 0)) inp"
    and "unat idx < length in_x" and "length d = length (inp ! 0)"
  shows "Update (NewErasureCoder in_x out_x) idx d (code_spec in_x out_x inp) =
           Inr (code_spec in_x out_x (inp[unat idx := map2 (XOR) (inp ! unat idx) d]))"
proof -
  let ?n = "length in_x" and ?c = "length (inp ! 0)" and ?i = "unat idx"
  let ?inp' = "inp[?i := map2 (XOR) (inp ! ?i) d]"
  let ?out = "code_spec in_x out_x inp"
  have row_i: "length (inp ! ?i) = ?c"
    using assms(3,4,5) by (simp add: list_all_length)
  have c': "length (?inp' ! 0) = ?c"
    using assms(3,5,6) row_i by (cases "?i = 0") simp_all
  have shape: "list_all (\<lambda>row. length d = length row) ?out"
    using code_spec_rows [of inp in_x out_x] assms(6) by (simp add: list_all_iff)
  have idx: "?i < ?n mod 256"
    using assms(2,5) by simp
  have entry: "?inp' ! i ! j = (if i = ?i then inp ! i ! j XOR d ! j else inp ! i ! j)"
    if "i < ?n" and "j < ?c" for i j
    using that assms(3,6) row_i by (simp add: nth_list_update)
  have "xor_sum (map (\<lambda>i. mult (?inp' ! i ! j) (lagrange_spec in_x i y)) [0..<?n]) =
      xor_sum (map (\<lambda>i. mult (inp ! i ! j) (lagrange_spec in_x i y)) [0..<?n])
        XOR mult (d ! j) (lagrange_spec in_x ?i y)" if "j < ?c" for j y
  proof -
    have "map (\<lambda>i. mult (?inp' ! i ! j) (lagrange_spec in_x i y)) [0..<?n] =
        map (\<lambda>i. if i = ?i
                   then mult (inp ! i ! j) (lagrange_spec in_x i y) XOR mult (d ! j) (lagrange_spec in_x ?i y)
                   else mult (inp ! i ! j) (lagrange_spec in_x i y)) [0..<?n]"
      using that by (intro map_cong refl) (simp add: entry mult_xor_left)
    then show ?thesis
      using xor_sum_update [OF assms(5), of "\<lambda>i. mult (inp ! i ! j) (lagrange_spec in_x i y)"
          "mult (d ! j) (lagrange_spec in_x ?i y)"]
      by (simp only:)
  qed
  then have "code_spec in_x out_x ?inp' =
      matrix_of (length out_x) (length d)
        (\<lambda>k j. ?out ! k ! j XOR mult (d ! j) (lagrange in_x ?i (out_x ! k)))"
    using assms(6)
    by (simp add: code_spec_def c' matrix_of_def lagrange_eq_spec)
  with Update_NewErasureCoder [OF idx _ shape, of out_x] show ?thesis
    by (simp add: length_code_spec)
qed

section \<open>The claims\<close>

text \<open>
  C8. Field sanity: every nonzero \<open>a\<close> has \<open>mult a inv[a] = 1\<close> and \<open>exp[log[a]] = a\<close>;
  zero annihilates on both sides; \<open>mult\<close> is commutative and distributes over XOR.
\<close>

theorem field_sanity:
  "(\<forall>a. a \<noteq> 0 \<longrightarrow> mult a (inv_tab ! unat a) = 1 \<and> exp_tab ! unat (log_tab ! unat a) = a)
   \<and> (\<forall>a. mult a 0 = 0 \<and> mult 0 a = 0)
   \<and> (\<forall>a b. mult a b = mult b a)
   \<and> (\<forall>a b c. mult a (b XOR c) = mult a b XOR mult a c)"
proof -
  have "exp_tab ! unat (log_tab ! unat a) = a" if "a \<noteq> 0" for a
    using that dlog_less [OF that] gpow_dlog [OF that] exp_tab_nth [of "dlog a"]
    by (simp add: dlog_def)
  then show ?thesis
    using mult_inv_tab mult_zero_left mult_zero_right mult_commute mult_xor_right by blast
qed

theorem field_sanity_witness:
  "(3 :: byte) \<noteq> 0 \<and> mult 3 (inv_tab ! unat (3 :: byte)) = 1
   \<and> exp_tab ! unat (log_tab ! unat (3 :: byte)) = 3"
proof -
  have "(3 :: byte) \<noteq> 0"
    by simp
  with field_sanity show ?thesis
    by blast
qed

text \<open>
  C9, as stated: \<open>inv[a] = exp[255 - log[a]]\<close> for every nonzero \<open>a\<close>, also for \<open>a = 1\<close>.
  At \<open>a = 1\<close> the index is 255, outside the 255 entries of \<open>exp\<close>.
\<close>

theorem inverse_formula_fails_at_one:
  "exp_at (255 - unat (log_tab ! unat (1 :: byte))) \<noteq> Some (inv_tab ! unat (1 :: byte))"
  using dlog_one by (simp add: exp_at_def dlog_def length_exp_tab)

text \<open>
  C9, amended: for every \<open>a\<close> other than 0 and 1 the stored inverse is \<open>exp[255 - log[a]]\<close>,
  an index inside \<open>exp\<close>; for \<open>a = 1\<close> that index is outside \<open>exp\<close> and \<open>init\<close> stores the
  inverse 1 by hand.
\<close>

theorem inverse_formula:
  "((a :: byte) \<noteq> 0 \<and> a \<noteq> 1 \<longrightarrow>
      exp_at (255 - unat (log_tab ! unat a)) = Some (inv_tab ! unat a))
   \<and> exp_at (255 - unat (log_tab ! unat (1 :: byte))) = None
   \<and> inv_tab ! unat (1 :: byte) = 1"
proof -
  have "exp_at (255 - unat (log_tab ! unat a)) = Some (inv_tab ! unat a)"
    if "a \<noteq> 0" and "a \<noteq> 1"
  proof -
    have "unat a < 256"
      using unsigned_less [of a, where ?'a = nat] by simp
    with inv_index_in_range [OF that] show ?thesis
      by (simp add: exp_at_def inv_tab_nth)
  qed
  moreover have "exp_at (255 - unat (log_tab ! unat (1 :: byte))) = None"
    using dlog_one by (simp add: exp_at_def dlog_def length_exp_tab)
  ultimately show ?thesis
    using inv_tab_one by blast
qed

theorem inverse_formula_witness:
  "(2 :: byte) \<noteq> 0 \<and> (2 :: byte) \<noteq> 1
   \<and> exp_at (255 - unat (log_tab ! unat (2 :: byte))) = Some (inv_tab ! unat (2 :: byte))"
proof -
  have "(2 :: byte) \<noteq> 0 \<and> (2 :: byte) \<noteq> 1"
    by simp
  with inverse_formula [of 2] show ?thesis
    by blast
qed

text \<open>
  C10. A coder of degree 256 rejects every \<open>Update\<close> with the index fault, whatever the
  index, although every byte is the index of one of its rows: the check compares the index
  with \<open>uint8(256) = 0\<close>.
\<close>

theorem Update_degree_256:
  "length in_x = 256 \<Longrightarrow>
     Update (NewErasureCoder in_x out_x) idx in_delta out = Inl (IndexOutOfRange, out)
     \<and> unat idx < Degree (NewErasureCoder in_x out_x)"
proof -
  assume len: "length in_x = 256"
  have "unat idx < 256"
    using unsigned_less [of idx, where ?'a = nat] by simp
  moreover have "length (interp (NewErasureCoder in_x out_x)) mod 256 = 0"
    using len Degree_NewErasureCoder [of in_x out_x] by (simp add: Degree_def)
  ultimately show ?thesis
    using len by (simp add: Update_degree_multiple_of_256 Degree_NewErasureCoder)
qed

theorem Update_degree_256_witness:
  "length (bytes_from 256 0) = 256
   \<and> Update (NewErasureCoder (bytes_from 256 0) [3]) 7 [1] [[0]] = Inl (IndexOutOfRange, [[0]])
   \<and> unat (7 :: byte) < Degree (NewErasureCoder (bytes_from 256 0) [3])"
proof -
  have "length (bytes_from 256 0) = 256"
    by (rule length_bytes_from)
  with Update_degree_256 [of "bytes_from 256 0" "[3]" 7 "[1]" "[[0]]"] show ?thesis
    by blast
qed

text \<open>
  C7 at the input where \<open>Update\<close> leaves it: the coder of the 256 abscissae 0 to 255 and
  one output, index 0, a delta and an output row of one byte. The index is below the degree
  and the shapes fit, yet the call ends with the index fault.
\<close>

theorem Update_rejects_index_below_degree:
  "unat (0 :: byte) < Degree (NewErasureCoder (bytes_from 256 0) [3])
   \<and> Update (NewErasureCoder (bytes_from 256 0) [3]) 0 [1] [[0]] = Inl (IndexOutOfRange, [[0]])"
proof -
  have "length (interp (NewErasureCoder (bytes_from 256 0) [3])) mod 256 = 0"
    using Degree_NewErasureCoder [of "bytes_from 256 0" "[3]"]
    by (simp add: Degree_def length_bytes_from)
  then show ?thesis
    by (simp add: Update_degree_multiple_of_256 Degree_NewErasureCoder length_bytes_from)
qed

text \<open>
  C4 at the input where the code leaves it: the same coder of degree 256, 256 rows of one
  zero byte, row 0 changed by the delta 1. \<open>Code\<close> encodes the rows and the changed rows,
  but \<open>Update\<close> on the encoded rows ends with the index fault.
\<close>

theorem Update_fails_where_Code_succeeds:
  "Code (NewErasureCoder (bytes_from 256 0) [3]) (replicate 256 [0]) =
     Inr (code_spec (bytes_from 256 0) [3] (replicate 256 [0]))
   \<and> Code (NewErasureCoder (bytes_from 256 0) [3]) ((replicate 256 [0])[0 := [1]]) =
     Inr (code_spec (bytes_from 256 0) [3] ((replicate 256 [0])[0 := [1]]))
   \<and> Update (NewErasureCoder (bytes_from 256 0) [3]) 0 [1]
       (code_spec (bytes_from 256 0) [3] (replicate 256 [0])) =
     Inl (IndexOutOfRange, code_spec (bytes_from 256 0) [3] (replicate 256 [0]))"
proof -
  have ne: "bytes_from 256 0 \<noteq> []"
    using length_bytes_from [of 256 0] by auto
  have "Code (NewErasureCoder (bytes_from 256 0) [3]) (replicate 256 [0]) =
      Inr (code_spec (bytes_from 256 0) [3] (replicate 256 [0]))"
    by (rule Code_NewErasureCoder [OF ne]) (simp_all add: length_bytes_from list_all_iff)
  moreover have "Code (NewErasureCoder (bytes_from 256 0) [3]) ((replicate 256 [0])[0 := [1]]) =
      Inr (code_spec (bytes_from 256 0) [3] ((replicate 256 [0])[0 := [1]]))"
    by (rule Code_NewErasureCoder [OF ne])
      (auto simp: length_bytes_from list_all_iff dest!: set_update_subset_insert [THEN subsetD])
  moreover have "length (interp (NewErasureCoder (bytes_from 256 0) [3])) mod 256 = 0"
    using Degree_NewErasureCoder [of "bytes_from 256 0" "[3]"]
    by (simp add: Degree_def length_bytes_from)
  ultimately show ?thesis
    by (simp add: Update_degree_multiple_of_256)
qed

text \<open>
  C1, as stated, at the coder with no input abscissa and the input with no row: the input
  is well shaped, and \<open>Code\<close> ends in the index panic of the runtime at \<open>p.interp[0]\<close>.
\<close>

theorem Code_of_degree_0_panics: "Code (NewErasureCoder [] [1]) [] = Inl RuntimeIndexError"
  by (rule Code_no_rows)

text \<open>
  C1, amended: for every coder built from at least one input abscissa and every well-shaped
  input, \<open>Code\<close> returns the matrix of \<open>numOutputs\<close> rows of length \<open>len(in[0])\<close> with
  \<open>out[k][j]\<close> the XOR over \<open>i\<close> of \<open>mult(in[i][j], M[i][k])\<close>, \<open>M[i][k]\<close> the Lagrange
  basis value of the specification.
\<close>

theorem Code_computes_spec:
  assumes "in_x \<noteq> []" and "length inp = length in_x"
    and "list_all (\<lambda>row. length row = length (inp ! 0)) inp"
  shows "Code (NewErasureCoder in_x out_x) inp = Inr (code_spec in_x out_x inp)
         \<and> length (code_spec in_x out_x inp) = length out_x
         \<and> list_all (\<lambda>row. length row = length (inp ! 0)) (code_spec in_x out_x inp)"
  using Code_NewErasureCoder [OF assms] length_code_spec code_spec_rows by blast

theorem Code_computes_spec_witness:
  "[1 :: byte, 2] \<noteq> [] \<and> length [[5 :: byte, 6], [7, 8]] = length [1 :: byte, 2]
   \<and> list_all (\<lambda>row. length row = length ([[5 :: byte, 6], [7, 8]] ! 0)) [[5, 6], [7, 8]]
   \<and> Code (NewErasureCoder [1, 2] [1, 2, 3]) [[5, 6], [7, 8]] =
       Inr (code_spec [1, 2] [1, 2, 3] [[5, 6], [7, 8]])
   \<and> length (code_spec [1, 2] [1, 2, 3] [[5 :: byte, 6], [7, 8]]) = length [1 :: byte, 2, 3]
   \<and> list_all (\<lambda>row. length row = length ([[5 :: byte, 6], [7, 8]] ! 0))
       (code_spec [1, 2] [1, 2, 3] [[5, 6], [7, 8]])"
proof -
  have "[1 :: byte, 2] \<noteq> []" and "length [[5 :: byte, 6], [7, 8]] = length [1 :: byte, 2]"
    and "list_all (\<lambda>row. length row = length ([[5 :: byte, 6], [7, 8]] ! 0)) [[5, 6], [7, 8]]"
    by simp_all
  from this Code_computes_spec [OF this, of "[1, 2, 3]"] show ?thesis
    by blast
qed

text \<open>
  C2, as stated, at no abscissa at all: the inputs are pairwise distinct, the first 0
  outputs are the inputs, the input matrix with no row is well shaped, and \<open>Code\<close> panics.
\<close>

theorem systematic_identity_fails_at_degree_0:
  "distinct ([] :: byte list) \<and> take (length ([] :: byte list)) [] = ([] :: byte list)
   \<and> Code (NewErasureCoder [] []) [] = Inl RuntimeIndexError"
  by (simp add: Code_no_rows)

text \<open>
  C2, amended: for at least one input abscissa, pairwise distinct, and output abscissae that
  start with the input abscissae, the first \<open>degree\<close> rows of \<open>Code(rows)\<close> are \<open>rows\<close>.
\<close>

theorem systematic_identity:
  assumes "in_x \<noteq> []" and "distinct in_x" and "take (length in_x) out_x = in_x"
    and "length inp = length in_x"
    and "list_all (\<lambda>row. length row = length (inp ! 0)) inp"
  shows "\<exists>out. Code (NewErasureCoder in_x out_x) inp = Inr out \<and> take (Degree (NewErasureCoder in_x out_x)) out = inp"
  using Code_NewErasureCoder [OF assms(1,4,5), of out_x] code_spec_systematic [OF assms(2-5)]
  by (simp add: Degree_NewErasureCoder)

theorem systematic_identity_witness:
  "[1 :: byte, 2] \<noteq> [] \<and> distinct [1 :: byte, 2]
   \<and> take (length [1 :: byte, 2]) [1, 2, 3] = [1 :: byte, 2]
   \<and> length [[5 :: byte, 6], [7, 8]] = length [1 :: byte, 2]
   \<and> list_all (\<lambda>row. length row = length ([[5 :: byte, 6], [7, 8]] ! 0)) [[5, 6], [7, 8]]
   \<and> (\<exists>out. Code (NewErasureCoder [1, 2] [1, 2, 3]) [[5, 6], [7, 8]] = Inr out
          \<and> take (Degree (NewErasureCoder [1, 2] [1, 2, 3])) out = [[5, 6], [7, 8]])"
proof -
  have "[1 :: byte, 2] \<noteq> []" and "distinct [1 :: byte, 2]"
    and "take (length [1 :: byte, 2]) [1, 2, 3] = [1 :: byte, 2]"
    and "length [[5 :: byte, 6], [7, 8]] = length [1 :: byte, 2]"
    and "list_all (\<lambda>row. length row = length ([[5 :: byte, 6], [7, 8]] ! 0)) [[5, 6], [7, 8]]"
    by simp_all
  from this systematic_identity [OF this] show ?thesis
    by blast
qed

text \<open>
  C3, as stated, with the output abscissae 0, 1, 2, 3, 3 of coder A (its input abscissae
  0, 1, 2 are distinct) and the rows 1, 0, 0 of one byte: coder B takes the outputs at
  positions 0, 3 and 4 and is asked for positions 1 and 2. B does not give back A's rows.
\<close>

theorem recovery_fails_on_repeated_abscissa:
  "Code (NewErasureCoder [0, 1, 2] [0, 1, 2, 3, 3]) [[1], [0], [0]] =
     Inr (code_spec [0, 1, 2] [0, 1, 2, 3, 3] [[1], [0], [0]])
   \<and> Code (NewErasureCoder [0, 3, 3] [1, 2])
         [code_spec [0, 1, 2] [0, 1, 2, 3, 3] [[1], [0], [0]] ! 0,
          code_spec [0, 1, 2] [0, 1, 2, 3, 3] [[1], [0], [0]] ! 3,
          code_spec [0, 1, 2] [0, 1, 2, 3, 3] [[1], [0], [0]] ! 4] \<noteq>
       Inr [code_spec [0, 1, 2] [0, 1, 2, 3, 3] [[1], [0], [0]] ! 1,
            code_spec [0, 1, 2] [0, 1, 2, 3, 3] [[1], [0], [0]] ! 2]"
proof -
  define outA where "outA = code_spec [0, 1, 2] [0, 1, 2, 3, 3] [[1], [0], [0]]"
  have A: "Code (NewErasureCoder [0, 1, 2] [0, 1, 2, 3, 3]) [[1], [0], [0]] = Inr outA"
    unfolding outA_def by (rule Code_NewErasureCoder) simp_all
  have sys: "take (length [0 :: byte, 1, 2]) outA = [[1], [0], [0]]"
    unfolding outA_def by (rule code_spec_systematic) simp_all
  have row0: "outA ! 0 = [1]"
    using arg_cong [OF sys, of "\<lambda>m. m ! 0"] by simp
  have row1: "outA ! Suc 0 = [0]"
    using arg_cong [OF sys, of "\<lambda>m. m ! Suc 0"] by simp
  have len: "length (outA ! 3) = 1" "length (outA ! 4) = 1"
    unfolding outA_def by (simp_all add: code_spec_nth)
  let ?inB = "[outA ! 0, outA ! 3, outA ! 4]"
  have B: "Code (NewErasureCoder [0, 3, 3] [1, 2]) ?inB = Inr (code_spec [0, 3, 3] [1, 2] ?inB)"
    by (rule Code_NewErasureCoder) (simp_all add: row0 len)
  have dead: "lagrange_spec [0, 3, 3] (Suc 0) 1 = 0" "lagrange_spec [0, 3, 3] (Suc (Suc 0)) 1 = 0"
    using lagrange_spec_collision [of 1 "[0, 3, 3]" 2 1]
      lagrange_spec_collision [of 2 "[0, 3, 3]" 1 1]
    by (simp_all add: numeral_2_eq_2)
  have "inv_tab ! unat (3 :: byte) \<noteq> 0"
    by (rule inv_tab_neq_zero) simp
  then have inv3: "inv_tab ! 3 \<noteq> 0"
    by simp
  have live: "lagrange_spec [0, 3, 3] 0 1 \<noteq> 0"
    using inv3 by (simp add: lagrange_spec_def mult_eq_zero)
  have "code_spec [0, 3, 3] [1, 2] ?inB ! 0 ! 0 = lagrange_spec [0, 3, 3] 0 1"
    by (simp add: code_spec_nth row0 xor_sum_def dead mult_zero_right mult_one_left)
  then have "code_spec [0, 3, 3] [1, 2] ?inB ! 0 ! 0 \<noteq> [outA ! 1, outA ! 2] ! 0 ! 0"
    using live by (simp add: row1)
  then have "code_spec [0, 3, 3] [1, 2] ?inB \<noteq> [outA ! 1, outA ! 2]"
    by metis
  with A B show ?thesis
    unfolding outA_def by simp
qed

text \<open>
  C3, amended: A has three distinct input abscissae and five output abscissae that start
  with them; B takes three of the five positions, at pairwise distinct abscissae, as its
  inputs and other positions as its outputs. Fed with A's output rows at its input
  positions, B returns A's output rows at its output positions, and A's first three output
  rows are the input rows.
\<close>

theorem round_trip_recovery:
  assumes "length xs = 5" and "distinct (take 3 xs)"
    and "length rows = 3" and "list_all (\<lambda>row. length row = length (rows ! 0)) rows"
    and "length sel = 3" and "set sel \<subseteq> {..<5}" and "distinct (map ((!) xs) sel)"
    and "set rest \<subseteq> {..<5}"
  shows "\<exists>outA. Code (NewErasureCoder (take 3 xs) xs) rows = Inr outA
           \<and> take 3 outA = rows
           \<and> Code (NewErasureCoder (map ((!) xs) sel) (map ((!) xs) rest)) (map ((!) outA) sel) =
               Inr (map ((!) outA) rest)"
proof -
  let ?as = "take 3 xs"
  have as: "?as \<noteq> []" "length ?as = 3"
    using assms(1) by auto
  have "Code (NewErasureCoder ?as xs) rows = Inr (code_spec ?as xs rows)"
    using as assms(3,4) by (intro Code_NewErasureCoder) simp_all
  moreover have "take (length ?as) (code_spec ?as xs rows) = rows"
    using as assms(2,3,4) by (intro code_spec_systematic) simp_all
  moreover have "Code (NewErasureCoder (map ((!) xs) sel) (map ((!) xs) rest))
      (map ((!) (code_spec ?as xs rows)) sel) = Inr (map ((!) (code_spec ?as xs rows)) rest)"
    using as assms(1,5-8) by (intro Code_recode) simp_all
  ultimately show ?thesis
    using as(2) by auto
qed

theorem round_trip_recovery_witness:
  "length [0 :: byte, 1, 2, 3, 4] = 5 \<and> distinct (take 3 [0 :: byte, 1, 2, 3, 4])
   \<and> length [[1 :: byte, 2], [41, 42], [11, 22]] = 3
   \<and> list_all (\<lambda>row. length row = length ([[1 :: byte, 2], [41, 42], [11, 22]] ! 0))
       [[1, 2], [41, 42], [11, 22]]
   \<and> length [0 :: nat, 3, 4] = 3 \<and> set [0 :: nat, 3, 4] \<subseteq> {..<5}
   \<and> distinct (map ((!) [0 :: byte, 1, 2, 3, 4]) [0, 3, 4]) \<and> set [1 :: nat, 2] \<subseteq> {..<5}
   \<and> (\<exists>outA. Code (NewErasureCoder (take 3 [0, 1, 2, 3, 4]) [0, 1, 2, 3, 4])
                 [[1, 2], [41, 42], [11, 22]] = Inr outA
          \<and> take 3 outA = [[1, 2], [41, 42], [11, 22]]
          \<and> Code (NewErasureCoder (map ((!) [0, 1, 2, 3, 4]) [0, 3, 4])
                    (map ((!) [0, 1, 2, 3, 4]) [1, 2])) (map ((!) outA) [0, 3, 4]) =
              Inr (map ((!) outA) [1, 2]))"
proof -
  have "length [0 :: byte, 1, 2, 3, 4] = 5" and "distinct (take 3 [0 :: byte, 1, 2, 3, 4])"
    and "length [[1 :: byte, 2], [41, 42], [11, 22]] = 3"
    and "list_all (\<lambda>row. length row = length ([[1 :: byte, 2], [41, 42], [11, 22]] ! 0))
       [[1, 2], [41, 42], [11, 22]]"
    and "length [0 :: nat, 3, 4] = 3" and "set [0 :: nat, 3, 4] \<subseteq> {..<5}"
    and "distinct (map ((!) [0 :: byte, 1, 2, 3, 4]) [0, 3, 4])" and "set [1 :: nat, 2] \<subseteq> {..<5}"
    by (simp_all add: numeral_3_eq_3)
  from this round_trip_recovery [OF this] show ?thesis
    by blast
qed

text \<open>
  C5, as stated, at the input abscissae 1, 1 and the output abscissa 2: construction
  returns a matrix, all zero, and nothing fails.
\<close>

theorem colliding_abscissae_build_zero_matrix:
  "interp (NewErasureCoder [1, 1] [2]) = [[0], [0]]"
proof -
  have "lagrange [1, 1] 0 2 = 0" and "lagrange [1, 1] 1 2 = 0"
    using lagrange_spec_collision [of 0 "[1, 1]" 1 2] lagrange_spec_collision [of 1 "[1, 1]" 0 2]
    by (simp_all add: lagrange_eq_spec)
  then show ?thesis
    by (simp add: interp_NewErasureCoder upt_rec)
qed

text \<open>
  C5, amended: when two input abscissae collide, \<open>lagrange\<close> reads the inverse of 0 in
  \<open>inv\<close>, which is 0, and construction goes on without a fault: the matrix rows of the
  colliding inputs are zero.
\<close>

theorem colliding_abscissae_zero_rows:
  assumes "i < length in_x" and "k < length in_x" and "i \<noteq> k" and "in_x ! i = in_x ! k"
  shows "inv_tab ! unat (in_x ! i XOR in_x ! k) = 0
         \<and> interp (NewErasureCoder in_x out_x) ! i = replicate (length out_x) 0"
proof -
  have "lagrange in_x i y = 0" for y
    using lagrange_spec_collision [OF assms] by (simp add: lagrange_eq_spec)
  then have "interp (NewErasureCoder in_x out_x) ! i = replicate (length out_x) 0"
    using assms(1) by (simp add: interp_nth map_replicate_const)
  then show ?thesis
    using assms(4) by (simp add: inv_tab_zero)
qed

theorem colliding_abscissae_zero_rows_witness:
  "(0 :: nat) < length [1 :: byte, 1] \<and> (1 :: nat) < length [1 :: byte, 1] \<and> (0 :: nat) \<noteq> 1
   \<and> [1 :: byte, 1] ! 0 = [1 :: byte, 1] ! 1
   \<and> inv_tab ! unat ([1 :: byte, 1] ! 0 XOR [1 :: byte, 1] ! 1) = 0
   \<and> interp (NewErasureCoder [1, 1] [2]) ! 0 = replicate (length [2 :: byte]) 0"
proof -
  have "(0 :: nat) < length [1 :: byte, 1]" and "(1 :: nat) < length [1 :: byte, 1]"
    and "(0 :: nat) \<noteq> 1" and "[1 :: byte, 1] ! 0 = [1 :: byte, 1] ! 1"
    by simp_all
  from this colliding_abscissae_zero_rows [OF this, of "[2]"] show ?thesis
    by blast
qed

text \<open>
  C6, as stated, at one input abscissa and no output abscissa: \<open>NewErasureCoder\<close> returns
  a coder, its \<open>NumOutputs\<close> is 0 and its \<open>Code\<close> returns the empty matrix.
\<close>

theorem coder_without_outputs_works:
  "Degree (NewErasureCoder [1] []) = 1 \<and> NumOutputs (NewErasureCoder [1] []) = Inr 0
   \<and> Code (NewErasureCoder [1] []) [[5]] = Inr []"
proof -
  have "Code (NewErasureCoder [1] []) [[5]] = Inr (code_spec [1] [] [[5]])"
    by (rule Code_NewErasureCoder) simp_all
  then show ?thesis
    by (simp add: Degree_NewErasureCoder NumOutputs_def interp_NewErasureCoder code_spec_def)
qed

text \<open>
  C6, amended: \<open>NewErasureCoder\<close> has no failure of its own and returns a coder of degree
  \<open>len(in_x)\<close> for every pair of sequences. With no input abscissa, \<open>NumOutputs\<close> and
  \<open>Code\<close> on the input with no row end in the index panic of the runtime; with input
  abscissae and no output abscissa, \<open>NumOutputs\<close> is 0 and \<open>Code\<close> returns the empty matrix
  for every well-shaped input.
\<close>

theorem NewErasureCoder_empty_sequences:
  "Degree (NewErasureCoder in_x out_x) = length in_x
   \<and> NumOutputs (NewErasureCoder in_x out_x) =
       (if in_x = [] then Inl RuntimeIndexError else Inr (length out_x))
   \<and> Code (NewErasureCoder [] out_x) [] = Inl RuntimeIndexError
   \<and> (in_x \<noteq> [] \<and> length inp = length in_x
        \<and> list_all (\<lambda>row. length row = length (inp ! 0)) inp
      \<longrightarrow> Code (NewErasureCoder in_x []) inp = Inr [])"
proof -
  have "NumOutputs (NewErasureCoder in_x out_x) =
      (if in_x = [] then Inl RuntimeIndexError else Inr (length out_x))"
  proof (cases in_x)
    case Nil
    then show ?thesis
      by (simp add: NumOutputs_def interp_NewErasureCoder)
  next
    case (Cons x xs)
    then have "[0..<length in_x] = 0 # [1..<length in_x]"
      by (simp add: upt_rec)
    with Cons show ?thesis
      by (simp add: NumOutputs_def interp_NewErasureCoder)
  qed
  moreover have "Code (NewErasureCoder in_x []) inp = Inr []"
    if "in_x \<noteq> []" "length inp = length in_x"
      "list_all (\<lambda>row. length row = length (inp ! 0)) inp"
    using Code_NewErasureCoder [OF that, of "[]"] by (simp add: code_spec_def)
  ultimately show ?thesis
    using Degree_NewErasureCoder Code_no_rows by blast
qed

theorem NewErasureCoder_empty_sequences_witness:
  "[1 :: byte] \<noteq> [] \<and> length [[5 :: byte]] = length [1 :: byte]
   \<and> list_all (\<lambda>row. length row = length ([[5 :: byte]] ! 0)) [[5]]
   \<and> Code (NewErasureCoder [1] []) [[5]] = Inr []
   \<and> NumOutputs (NewErasureCoder [] [1]) = Inl RuntimeIndexError"
proof -
  have "[1 :: byte] \<noteq> [] \<and> length [[5 :: byte]] = length [1 :: byte]
      \<and> list_all (\<lambda>row. length row = length ([[5 :: byte]] ! 0)) [[5]]"
    by simp
  with NewErasureCoder_empty_sequences [of "[1]" "[]" "[[5]]"]
    NewErasureCoder_empty_sequences [of "[]" "[1]" "[]"]
  show ?thesis
    by simp
qed

section \<open>Shape validation and updates below degree 256\<close>

text \<open>
  What holds of C7 and C4 for coders of fewer than 256 inputs, where the byte comparison of
  \<open>Update\<close> is the comparison with the degree.
\<close>

lemma Code_faults:
  "Code (NewErasureCoder in_x out_x) inp =
     (if length inp \<noteq> length in_x then Inl ShapeMismatch
      else if \<not> list_all (\<lambda>row. length row = length (inp ! 0)) inp then Inl RaggedInput
      else if in_x = [] then Inl RuntimeIndexError
      else Inr (code_spec in_x out_x inp))"
proof -
  have "Code (NewErasureCoder [] out_x) inp = Inl RuntimeIndexError" if "length inp = 0"
    using that Code_no_rows by simp
  then show ?thesis
    using Code_NewErasureCoder [of in_x inp out_x]
    by (auto simp: Code_wrong_row_count Code_ragged Degree_NewErasureCoder)
qed

lemma Update_faults:
  assumes "length in_x < 256"
  shows "Update (NewErasureCoder in_x out_x) idx d out =
     (if length in_x \<le> unat idx then Inl (IndexOutOfRange, out)
      else if length out \<noteq> length out_x then Inl (ShapeMismatch, out)
      else if \<not> list_all (\<lambda>row. length d = length row) out then Inl (RaggedInput, out)
      else Inr (matrix_of (length out_x) (length d)
                  (\<lambda>k j. out ! k ! j XOR mult (d ! j) (lagrange in_x (unat idx) (out_x ! k)))))"
proof (cases "length in_x \<le> unat idx")
  case True
  then show ?thesis
    using assms Update_index_check [of "NewErasureCoder in_x out_x" idx d out]
      Degree_NewErasureCoder [of in_x out_x]
    by (simp add: Degree_def)
next
  case False
  then have idx: "unat idx < length in_x mod 256"
    using assms by simp
  then have not_ge: "\<not> idx \<ge> (of_nat (length in_x) :: byte)"
    by (simp add: word_le_nat_alt unat_of_nat)
  have "0 < length in_x"
    using False by (cases in_x) simp_all
  then have row0: "length (interp (NewErasureCoder in_x out_x) ! 0) = length out_x"
    by (simp add: interp_nth)
  have len: "length (interp (NewErasureCoder in_x out_x)) = length in_x"
    using Degree_NewErasureCoder [of in_x out_x] by (simp add: Degree_def)
  show ?thesis
  proof (cases "length out = length out_x \<and> list_all (\<lambda>row. length d = length row) out")
    case True
    with Update_NewErasureCoder [OF idx, of out out_x d] False show ?thesis
      by simp
  next
    case bad: False
    with False not_ge show ?thesis
      by (auto simp: Update_def len row0)
  qed
qed

text \<open>
  Linearity below degree 256: changing input row \<open>idx\<close> by the delta \<open>d\<close> and encoding again
  gives what \<open>Update\<close> makes of the encoded rows.
\<close>

lemma Update_matches_Code_below_256:
  assumes "in_x \<noteq> []" and "length in_x < 256" and "length inp = length in_x"
    and "list_all (\<lambda>row. length row = length (inp ! 0)) inp"
    and "unat idx < length in_x" and "length d = length (inp ! 0)"
  shows "\<exists>out out'. Code (NewErasureCoder in_x out_x) inp = Inr out
           \<and> Update (NewErasureCoder in_x out_x) idx d out = Inr out'
           \<and> Code (NewErasureCoder in_x out_x) (inp[unat idx := map2 (XOR) (inp ! unat idx) d]) =
               Inr out'"
proof -
  let ?inp' = "inp[unat idx := map2 (XOR) (inp ! unat idx) d]"
  have row: "length (inp ! unat idx) = length (inp ! 0)"
    using assms(3,4,5) by (simp add: list_all_length)
  have first: "length (?inp' ! 0) = length (inp ! 0)"
    using assms(3,5,6) row by (cases "unat idx = 0") simp_all
  have "length row' = length (inp ! 0)" if "row' \<in> set ?inp'" for row'
  proof -
    from that have "row' \<in> insert (map2 (XOR) (inp ! unat idx) d) (set inp)"
      using set_update_subset_insert [of inp] by blast
    then show ?thesis
      using assms(4,6) row by (auto simp: list_all_iff)
  qed
  then have shape: "list_all (\<lambda>row. length row = length (?inp' ! 0)) ?inp'"
    by (simp add: list_all_iff first)
  have "Code (NewErasureCoder in_x out_x) ?inp' = Inr (code_spec in_x out_x ?inp')"
    using assms(1,3) shape by (intro Code_NewErasureCoder) simp_all
  with Code_NewErasureCoder [OF assms(1,3,4), of out_x] Code_Update_linear [OF assms, of out_x]
  show ?thesis
    by simp
qed

section \<open>The test of the repository\<close>

text \<open>
  \<open>TestErasureCoder\<close>: three rows are encoded at the abscissae 0 to 4, row 1 is replaced
  through \<open>Update\<close>, and a second coder recovers rows 1 and 2 from the outputs 0, 3 and 4.
  The model passes the test.
\<close>

lemma TestErasureCoder:
  assumes c: "c = NewErasureCoder [0, 1, 2] [0, 1, 2, 3, 4]"
    and inp: "inp = [[1, 2, 3, 4, 5], [41, 42, 43, 44, 45], [11, 22, 33, 44, 55]]"
    and upd: "in_updated = [51, 62, 73, 84, 95]"
    and delta: "delta = map2 (XOR) (inp ! 1) in_updated"
  shows "\<exists>out out'. Code c inp = Inr out \<and> take 3 out = inp
           \<and> Update c 1 delta out = Inr out' \<and> take 3 out' = inp[1 := in_updated]
           \<and> Code (NewErasureCoder [0, 3, 4] [1, 2]) [out' ! 0, out' ! 3, out' ! 4] =
               Inr [in_updated, inp ! 2]"
proof -
  let ?in_x = "[0, 1, 2] :: byte list" and ?xs = "[0, 1, 2, 3, 4] :: byte list"
  let ?inp' = "inp[1 := in_updated]"
  have twice: "map2 (XOR) (inp ! 1) delta = in_updated"
    by (simp add: inp upd delta)
  have shape: "length inp = length ?in_x" "list_all (\<lambda>row. length row = length (inp ! 0)) inp"
    by (simp_all add: inp)
  have shape': "length ?inp' = length ?in_x"
    "list_all (\<lambda>row. length row = length (?inp' ! 0)) ?inp'"
    by (simp_all add: inp upd)
  have out: "Code c inp = Inr (code_spec ?in_x ?xs inp)"
    unfolding c by (rule Code_NewErasureCoder [OF _ shape]) simp
  have sys: "take (length ?in_x) (code_spec ?in_x ?xs inp) = inp"
    by (rule code_spec_systematic [OF _ _ shape]) simp_all
  have "Update c 1 delta (code_spec ?in_x ?xs inp) =
      Inr (code_spec ?in_x ?xs (inp[unat (1 :: byte) := map2 (XOR) (inp ! unat (1 :: byte)) delta]))"
    unfolding c by (rule Code_Update_linear [OF _ _ shape]) (simp_all add: inp upd delta)
  then have out': "Update c 1 delta (code_spec ?in_x ?xs inp) = Inr (code_spec ?in_x ?xs ?inp')"
    using twice by simp
  have sys': "take (length ?in_x) (code_spec ?in_x ?xs ?inp') = ?inp'"
    by (rule code_spec_systematic [OF _ _ shape']) simp_all
  have row1: "code_spec ?in_x ?xs ?inp' ! 1 = in_updated"
    using arg_cong [OF sys', of "\<lambda>m. m ! 1"] by (simp add: inp)
  have row2: "code_spec ?in_x ?xs ?inp' ! 2 = inp ! 2"
    using arg_cong [OF sys', of "\<lambda>m. m ! 2"] by (simp add: inp)
  have "Code (NewErasureCoder (map ((!) ?xs) [0, 3, 4]) (map ((!) ?xs) [1, 2]))
      (map ((!) (code_spec ?in_x ?xs ?inp')) [0, 3, 4]) =
      Inr (map ((!) (code_spec ?in_x ?xs ?inp')) [1, 2])"
    by (rule Code_recode) simp_all
  then have "Code (NewErasureCoder [0, 3, 4] [1, 2])
      [code_spec ?in_x ?xs ?inp' ! 0, code_spec ?in_x ?xs ?inp' ! 3, code_spec ?in_x ?xs ?inp' ! 4] =
      Inr [in_updated, inp ! 2]"
    using row1 row2 by simp
  with out out' sys sys' show ?thesis
    by (auto simp: numeral_3_eq_3)
qed

end
